theory Spec2Isabelle
  imports Complex_Main
begin

section \<open>Values of the scene graph\<close>

text \<open>
  Display objects are JavaScript objects compared by identity (\<open>===\<close>, \<open>indexOf\<close>);
  an object is named by its reference.  Array indices are the integral JavaScript
  numbers, so an index is an \<open>int\<close>.
\<close>

type_synonym ref = nat

text \<open>
  The exceptions the container raises, named after the spec's taxonomy:
  \<open>OutOfBounds\<close> is the \<open>Error\<close> of \<open>addChildAt\<close>, \<open>IndexError\<close> the one of
  \<open>getChildAt\<close> and \<open>setChildIndex\<close>, \<open>MembershipError\<close> the one of
  \<open>getChildIndex\<close> and \<open>swapChildren\<close>, \<open>RangeError\<close> the one of \<open>removeChildren\<close>.
  \<open>TypeError\<close> is the property access on \<open>null\<close> (\<open>this.stage.dirty\<close> with no stage).
  \<open>OutOfFuel\<close> stands for a recursion over the children that does not come back
  (a cyclic child graph): the call does not return normally.
\<close>

datatype error = OutOfBounds | IndexError | MembershipError | RangeError | TypeError | OutOfFuel

text \<open>
  A JavaScript number is an IEEE 754 double: a finite value \<open>Num x\<close>, one of the two
  infinities, or \<open>NaN\<close>.  The finite doubles are the reals \<open>m * 2 ^ e\<close> with
  \<open>\<bar>m\<bar> < 2 ^ 53\<close> and \<open>- 1074 \<le> e \<le> 971\<close>; the two zeros are one value (the
  comparisons do not tell them apart).
\<close>

datatype number = NaN | NegInfinity | Num real | Infinity

text \<open>
  The rounding of the exact result of an operation to a double, in the default mode
  (to the nearest double, a tie to the one with the even significand): the result is
  rounded to 53 significant bits, or to a multiple of \<open>2 ^ - 1074\<close> in the subnormal
  range, and overflows to an infinity when that gives \<open>2 ^ 1024\<close> or more.
\<close>

definition round_half_even :: "real \<Rightarrow> int" where
  "round_half_even q =
     (let f = \<lfloor>q\<rfloor>; d = q - of_int f
      in if d < 1 / 2 then f else if 1 / 2 < d then f + 1 else if even f then f else f + 1)"

definition round_double :: "real \<Rightarrow> number" where
  "round_double x =
     (if x = 0 then Num 0
      else
        let e = max (\<lfloor>log 2 \<bar>x\<bar>\<rfloor> - 52) (- 1074);
            m = round_half_even (\<bar>x\<bar> / 2 powr of_int e);
            y = of_int m * 2 powr of_int e
        in if 2 ^ 1024 \<le> y then (if 0 < x then Infinity else NegInfinity)
           else Num (sgn x * y))"

fun num_lt :: "number \<Rightarrow> number \<Rightarrow> bool" where
  "num_lt NaN b = False"
| "num_lt a NaN = False"
| "num_lt NegInfinity NegInfinity = False"
| "num_lt NegInfinity b = True"
| "num_lt (Num a) NegInfinity = False"
| "num_lt (Num a) (Num b) = (a < b)"
| "num_lt (Num a) Infinity = True"
| "num_lt Infinity b = False"

fun num_eq :: "number \<Rightarrow> number \<Rightarrow> bool" where
  "num_eq NaN b = False"
| "num_eq a NaN = False"
| "num_eq a b = (a = b)"

definition num_le :: "number \<Rightarrow> number \<Rightarrow> bool" where
  "num_le a b = (num_lt a b \<or> num_eq a b)"

definition num_gt :: "number \<Rightarrow> number \<Rightarrow> bool" where
  "num_gt a b = num_lt b a"

fun num_neg :: "number \<Rightarrow> number" where
  "num_neg NaN = NaN"
| "num_neg NegInfinity = Infinity"
| "num_neg (Num a) = Num (- a)"
| "num_neg Infinity = NegInfinity"

text \<open>
  The operators \<open>+\<close>, \<open>-\<close> and \<open>/\<close> on numbers: the exact result on finite operands,
  rounded.  A zero divisor is taken as the positive zero.
\<close>

fun num_add :: "number \<Rightarrow> number \<Rightarrow> number" where
  "num_add NaN b = NaN"
| "num_add a NaN = NaN"
| "num_add (Num a) (Num b) = round_double (a + b)"
| "num_add (Num a) b = b"
| "num_add a (Num b) = a"
| "num_add a b = (if a = b then a else NaN)"

definition num_sub :: "number \<Rightarrow> number \<Rightarrow> number" where
  "num_sub a b = num_add a (num_neg b)"

fun num_div :: "number \<Rightarrow> number \<Rightarrow> number" where
  "num_div NaN b = NaN"
| "num_div a NaN = NaN"
| "num_div (Num a) (Num b) =
     (if b \<noteq> 0 then round_double (a / b)
      else if a = 0 then NaN else if 0 < a then Infinity else NegInfinity)"
| "num_div (Num a) b = Num 0"
| "num_div Infinity (Num b) = (if 0 \<le> b then Infinity else NegInfinity)"
| "num_div NegInfinity (Num b) = (if 0 \<le> b then NegInfinity else Infinity)"
| "num_div a b = NaN"

record rectangle =
  rect_x :: number
  rect_y :: number
  rect_width :: number
  rect_height :: number

text \<open>\<open>math.Rectangle.EMPTY\<close>, the shared rectangle \<open>new Rectangle(0, 0, 0, 0)\<close>.\<close>

definition Rectangle_EMPTY :: rectangle where
  "Rectangle_EMPTY = \<lparr>rect_x = Num 0, rect_y = Num 0, rect_width = Num 0, rect_height = Num 0\<rparr>"

text \<open>
  \<open>getBounds\<close> returns a rectangle object, and which object it is matters: the shared
  \<open>EMPTY\<close> singleton, or the \<open>_bounds\<close> rectangle owned by a display object.
\<close>

datatype rect_ref = EMPTY | BoundsOf ref

text \<open>
  A world transform.  The matrix arithmetic is the math library's and is not in the
  sources; a matrix is a term built from the shared \<open>math.Matrix.IDENTITY\<close>.
\<close>

datatype matrix = IDENTITY | Composed matrix ref

text \<open>
  The class an object dispatches on.  \<open>getBounds\<close>, \<open>_renderWebGL\<close> and
  \<open>_renderCanvas\<close> of a child are dynamic calls; a child that is not a plain
  container runs a subclass's override of them, which is not in the sources.

  Modelled from the spec: \<open>setStageReference\<close>, \<open>removeStageReference\<close> and
  \<open>updateTransform\<close> of a child of another class are not in the sources either; the
  spec gives every node the one behaviour (set or clear the reference, mark the root
  dirty if interactive, recurse into all children; update the own transform, recurse),
  which is the container's code, so every child answers these three with it.
\<close>

datatype cls = DisplayObjectContainer | OtherDisplayObject

record dobj =
  cls :: cls
  parent :: "ref option"
  children :: "ref list"
  stage :: "ref option"
  interactive :: bool
  visible :: bool
  alpha :: number
  cacheAsBitmap :: bool
  mask :: "ref option"
  filters :: "ref option"
  scale_x :: number
  scale_y :: number
  width_field :: number
  height_field :: number
  bounds :: rectangle
  worldTransform :: matrix

text \<open>The calls made on a render session, in order.\<close>

datatype call =
    SpriteBatch_flush | SpriteBatch_start | SpriteBatch_stop
  | FilterManager_pushFilter ref | FilterManager_popFilter
  | MaskManager_pushMask ref | MaskManager_popMask "ref option"
  | RenderCachedSprite ref
  | RenderOverride ref

text \<open>
  The store: every reference names an object; \<open>dirty\<close> is the \<open>dirty\<close> flag of the
  stage object at a reference; \<open>calls\<close> is the log of the render session.
\<close>

record world =
  objs :: "ref \<Rightarrow> dobj"
  dirty :: "ref \<Rightarrow> bool"
  calls :: "call list"

text \<open>A call ends with a value or an exception, and with the store as it left it.\<close>

type_synonym 'a res = "(error + 'a) \<times> world"

definition upd_obj :: "ref \<Rightarrow> (dobj \<Rightarrow> dobj) \<Rightarrow> world \<Rightarrow> world" where
  "upd_obj r f w = w\<lparr>objs := (objs w)(r := f (objs w r))\<rparr>"

definition deref :: "world \<Rightarrow> rect_ref \<Rightarrow> rectangle" where
  "deref w r = (case r of EMPTY \<Rightarrow> Rectangle_EMPTY | BoundsOf x \<Rightarrow> bounds (objs w x))"

section \<open>Arrays\<close>

text \<open>\<open>Array.prototype.indexOf\<close>: the first position of the value, or \<open>-1\<close>.\<close>

fun indexOf :: "'a list \<Rightarrow> 'a \<Rightarrow> int" where
  "indexOf [] v = - 1"
| "indexOf (x # xs) v =
     (if x = v then 0 else (let i = indexOf xs v in if i = - 1 then - 1 else i + 1))"

text \<open>
  \<open>Array.prototype.splice(start, deleteCount, items...)\<close>: a negative start counts
  from the end, both numbers are clamped to the array; the result is the removed
  elements and the array afterwards.
\<close>

definition array_splice :: "int \<Rightarrow> int \<Rightarrow> 'a list \<Rightarrow> 'a list \<Rightarrow> 'a list \<times> 'a list" where
  "array_splice start deleteCount items xs =
     (let len = int (length xs);
          actualStart = (if start < 0 then max (len + start) 0 else min start len);
          actualDeleteCount = min (max deleteCount 0) (len - actualStart)
      in (take (nat actualDeleteCount) (drop (nat actualStart) xs),
          take (nat actualStart) xs @ items @ drop (nat (actualStart + actualDeleteCount)) xs))"

section \<open>Attachment propagation\<close>

text \<open>
  The loop \<open>for (i = 0, j = this.children.length; i < j; ++i) this.children[i].m()\<close>.
  None of the traversals below writes a \<open>children\<close> array, so the array read at the
  loop's entry is the one indexed at every iteration.  An exception in a call ends the
  loop.  The recursion through the children is bounded by the first argument of each
  traversal; running out of it is \<open>OutOfFuel\<close>.
\<close>

fun forEach :: "(ref \<Rightarrow> world \<Rightarrow> unit res) \<Rightarrow> ref list \<Rightarrow> world \<Rightarrow> unit res" where
  "forEach f [] w = (Inr (), w)"
| "forEach f (c # cs) w =
     (case f c w of (Inl e, w1) \<Rightarrow> (Inl e, w1) | (Inr _, w1) \<Rightarrow> forEach f cs w1)"

primrec setStageReference :: "nat \<Rightarrow> ref \<Rightarrow> ref \<Rightarrow> world \<Rightarrow> unit res" where
  "setStageReference 0 this s w = (Inl OutOfFuel, w)"
| "setStageReference (Suc k) this s w =
     (let w1 = upd_obj this (\<lambda>d. d\<lparr>stage := Some s\<rparr>) w;
          w2 = (if interactive (objs w1 this) then w1\<lparr>dirty := (dirty w1)(s := True)\<rparr> else w1)
      in forEach (\<lambda>c. setStageReference k c s) (children (objs w2 this)) w2)"

primrec removeStageReference :: "nat \<Rightarrow> ref \<Rightarrow> world \<Rightarrow> unit res" where
  "removeStageReference 0 this w = (Inl OutOfFuel, w)"
| "removeStageReference (Suc k) this w =
     (case forEach (removeStageReference k) (children (objs w this)) w of
        (Inl e, w1) \<Rightarrow> (Inl e, w1)
      | (Inr _, w1) \<Rightarrow>
          (if interactive (objs w1 this) then
             (case stage (objs w1 this) of
                None \<Rightarrow> (Inl TypeError, w1)
              | Some s \<Rightarrow>
                  (Inr (), upd_obj this (\<lambda>d. d\<lparr>stage := None\<rparr>) (w1\<lparr>dirty := (dirty w1)(s := True)\<rparr>)))
           else (Inr (), upd_obj this (\<lambda>d. d\<lparr>stage := None\<rparr>) w1)))"

section \<open>The container's mutation operations\<close>

definition getChildAt :: "ref \<Rightarrow> int \<Rightarrow> world \<Rightarrow> error + ref" where
  "getChildAt this index w =
     (if index < 0 \<or> index \<ge> int (length (children (objs w this))) then Inl IndexError
      else Inr (children (objs w this) ! nat index))"

definition getChildIndex :: "ref \<Rightarrow> ref \<Rightarrow> world \<Rightarrow> error + int" where
  "getChildIndex this child w =
     (let index = indexOf (children (objs w this)) child
      in if index = - 1 then Inl MembershipError else Inr index)"

definition removeChildAt :: "nat \<Rightarrow> ref \<Rightarrow> int \<Rightarrow> world \<Rightarrow> ref res" where
  "removeChildAt k this index w =
     (case getChildAt this index w of
        Inl e \<Rightarrow> (Inl e, w)
      | Inr child \<Rightarrow>
          (case (if stage (objs w this) \<noteq> None then removeStageReference k child w
                 else (Inr (), w)) of
             (Inl e, w1) \<Rightarrow> (Inl e, w1)
           | (Inr _, w1) \<Rightarrow>
               (let w2 = upd_obj child (\<lambda>d. d\<lparr>parent := None\<rparr>) w1;
                    w3 = upd_obj this
                           (\<lambda>d. d\<lparr>children := snd (array_splice index 1 [] (children d))\<rparr>) w2
                in (Inr child, w3))))"

text \<open>\<open>removeChild\<close> returns \<open>undefined\<close> (here \<open>None\<close>) for a value that is not a child.\<close>

definition removeChild :: "nat \<Rightarrow> ref \<Rightarrow> ref \<Rightarrow> world \<Rightarrow> (ref option) res" where
  "removeChild k this child w =
     (let index = indexOf (children (objs w this)) child
      in if index = - 1 then (Inr None, w)
         else (case removeChildAt k this index w of
                 (Inl e, w1) \<Rightarrow> (Inl e, w1)
               | (Inr c, w1) \<Rightarrow> (Inr (Some c), w1)))"

definition addChildAt :: "nat \<Rightarrow> ref \<Rightarrow> ref \<Rightarrow> int \<Rightarrow> world \<Rightarrow> ref res" where
  "addChildAt k this child index w =
     (if index \<ge> 0 \<and> index \<le> int (length (children (objs w this))) then
        (case (case parent (objs w child) of
                 None \<Rightarrow> (Inr None, w)
               | Some p \<Rightarrow> removeChild k p child w) of
           (Inl e, w1) \<Rightarrow> (Inl e, w1)
         | (Inr _, w1) \<Rightarrow>
             (let w2 = upd_obj child (\<lambda>d. d\<lparr>parent := Some this\<rparr>) w1;
                  w3 = upd_obj this
                         (\<lambda>d. d\<lparr>children := snd (array_splice index 0 [child] (children d))\<rparr>) w2
              in (case stage (objs w3 this) of
                    None \<Rightarrow> (Inr child, w3)
                  | Some s \<Rightarrow>
                      (case setStageReference k child s w3 of
                         (Inl e, w4) \<Rightarrow> (Inl e, w4)
                       | (Inr _, w4) \<Rightarrow> (Inr child, w4)))))
      else (Inl OutOfBounds, w))"

definition addChild :: "nat \<Rightarrow> ref \<Rightarrow> ref \<Rightarrow> world \<Rightarrow> ref res" where
  "addChild k this child w = addChildAt k this child (int (length (children (objs w this)))) w"

definition swapChildren :: "ref \<Rightarrow> ref \<Rightarrow> ref \<Rightarrow> world \<Rightarrow> unit res" where
  "swapChildren this child child2 w =
     (if child = child2 then (Inr (), w)
      else (case getChildIndex this child w of
              Inl e \<Rightarrow> (Inl e, w)
            | Inr index1 \<Rightarrow>
                (case getChildIndex this child2 w of
                   Inl e \<Rightarrow> (Inl e, w)
                 | Inr index2 \<Rightarrow>
                     (if index1 < 0 \<or> index2 < 0 then (Inl MembershipError, w)
                      else
                        (let w1 = upd_obj this
                                    (\<lambda>d. d\<lparr>children := (children d)[nat index1 := child2]\<rparr>) w;
                             w2 = upd_obj this
                                    (\<lambda>d. d\<lparr>children := (children d)[nat index2 := child]\<rparr>) w1
                         in (Inr (), w2))))))"

definition setChildIndex :: "ref \<Rightarrow> ref \<Rightarrow> int \<Rightarrow> world \<Rightarrow> unit res" where
  "setChildIndex this child index w =
     (if index < 0 \<or> index \<ge> int (length (children (objs w this))) then (Inl IndexError, w)
      else (case getChildIndex this child w of
              Inl e \<Rightarrow> (Inl e, w)
            | Inr currentIndex \<Rightarrow>
                (let w1 = upd_obj this
                            (\<lambda>d. d\<lparr>children := snd (array_splice currentIndex 1 [] (children d))\<rparr>) w;
                     w2 = upd_obj this
                            (\<lambda>d. d\<lparr>children := snd (array_splice index 0 [child] (children d))\<rparr>) w1
                 in (Inr (), w2))))"

text \<open>
  The loop of \<open>removeChildren\<close> over the removed elements; \<open>this.stage\<close> is read at
  every iteration.
\<close>

fun removeChildren_loop :: "nat \<Rightarrow> ref \<Rightarrow> ref list \<Rightarrow> world \<Rightarrow> unit res" where
  "removeChildren_loop k this [] w = (Inr (), w)"
| "removeChildren_loop k this (child # rest) w =
     (case (if stage (objs w this) \<noteq> None then removeStageReference k child w
            else (Inr (), w)) of
        (Inl e, w1) \<Rightarrow> (Inl e, w1)
      | (Inr _, w1) \<Rightarrow>
          removeChildren_loop k this rest (upd_obj child (\<lambda>d. d\<lparr>parent := None\<rparr>) w1))"

text \<open>
  An argument left out (or not a number) is \<open>None\<close>: \<open>beginIndex || 0\<close> and the
  \<open>typeof endIndex === 'number'\<close> test choose the defaults.
\<close>

definition removeChildren :: "nat \<Rightarrow> ref \<Rightarrow> int option \<Rightarrow> int option \<Rightarrow> world \<Rightarrow> (ref list) res" where
  "removeChildren k this beginIndex endIndex w =
     (let begin = (case beginIndex of None \<Rightarrow> 0 | Some b \<Rightarrow> b);
          end = (case endIndex of Some e \<Rightarrow> e | None \<Rightarrow> int (length (children (objs w this))));
          range = end - begin
      in if range > 0 \<and> range \<le> end then
           (let removed = fst (array_splice begin range [] (children (objs w this)));
                w1 = upd_obj this
                       (\<lambda>d. d\<lparr>children := snd (array_splice begin range [] (children d))\<rparr>) w
            in (case removeChildren_loop k this removed w1 of
                  (Inl e, w2) \<Rightarrow> (Inl e, w2)
                | (Inr _, w2) \<Rightarrow> (Inr removed, w2)))
         else if range = 0 \<and> length (children (objs w this)) = 0 then (Inr [], w)
         else (Inl RangeError, w))"

section \<open>Transform propagation and bounds\<close>

text \<open>
  Modelled from the spec: \<open>displayObjectUpdateTransform\<close> is the base class's own
  single-node step (\<open>DisplayObject.prototype.updateTransform\<close>, not in the sources):
  "update this node's own world transform from local position/scale/rotation composed
  with the parent's world transform".  The new world transform is the parent's one
  composed with this node's local state; with no parent there is no transform to read.
\<close>

definition displayObjectUpdateTransform :: "ref \<Rightarrow> world \<Rightarrow> unit res" where
  "displayObjectUpdateTransform this w =
     (case parent (objs w this) of
        None \<Rightarrow> (Inl TypeError, w)
      | Some p \<Rightarrow>
          (Inr (), upd_obj this (\<lambda>d. d\<lparr>worldTransform := Composed (worldTransform (objs w p)) this\<rparr>) w))"

primrec updateTransform :: "nat \<Rightarrow> ref \<Rightarrow> world \<Rightarrow> unit res" where
  "updateTransform 0 this w = (Inl OutOfFuel, w)"
| "updateTransform (Suc k) this w =
     (if \<not> visible (objs w this) then (Inr (), w)
      else (case displayObjectUpdateTransform this w of
              (Inl e, w1) \<Rightarrow> (Inl e, w1)
            | (Inr _, w1) \<Rightarrow>
                (if cacheAsBitmap (objs w1 this) then (Inr (), w1)
                 else forEach (updateTransform k) (children (objs w1 this)) w1)))"

text \<open>
  The running values of the bounds loop: \<open>minX\<close>, \<open>minY\<close>, \<open>maxX\<close>, \<open>maxY\<close> and
  \<open>childVisible\<close>.
\<close>

type_synonym bounds_acc = "number \<times> number \<times> number \<times> number \<times> bool"

text \<open>
  The loop of \<open>getBounds\<close>; \<open>gbc\<close> is the dynamic call \<open>this.children[i].getBounds()\<close>.
  The rectangle it returns is read at once, before any other call.
\<close>

fun getBounds_loop ::
  "(ref \<Rightarrow> world \<Rightarrow> rect_ref res) \<Rightarrow> ref list \<Rightarrow> bounds_acc \<Rightarrow> world \<Rightarrow> bounds_acc res" where
  "getBounds_loop gbc [] acc w = (Inr acc, w)"
| "getBounds_loop gbc (child # rest) (minX, minY, maxX, maxY, childVisible) w =
     (if \<not> visible (objs w child) then
        getBounds_loop gbc rest (minX, minY, maxX, maxY, childVisible) w
      else
        (case gbc child w of
           (Inl e, w1) \<Rightarrow> (Inl e, w1)
         | (Inr r, w1) \<Rightarrow>
             (let childBounds = deref w1 r;
                  minX' = (if num_lt minX (rect_x childBounds) then minX else rect_x childBounds);
                  minY' = (if num_lt minY (rect_y childBounds) then minY else rect_y childBounds);
                  childMaxX = num_add (rect_width childBounds) (rect_x childBounds);
                  childMaxY = num_add (rect_height childBounds) (rect_y childBounds);
                  maxX' = (if num_gt maxX childMaxX then maxX else childMaxX);
                  maxY' = (if num_gt maxY childMaxY then maxY else childMaxY)
              in getBounds_loop gbc rest (minX', minY', maxX', maxY', True) w1)))"

text \<open>
  \<open>getBounds\<close> of a plain container.  A child of another class answers with its own
  \<open>_bounds\<close> rectangle, filled by its class's override, which is not in the sources: the
  rectangle that override computes from the object's state is the parameter \<open>gb\<close>.
\<close>

primrec getBounds :: "(dobj \<Rightarrow> rectangle) \<Rightarrow> nat \<Rightarrow> ref \<Rightarrow> world \<Rightarrow> rect_ref res" where
  "getBounds gb 0 this w = (Inl OutOfFuel, w)"
| "getBounds gb (Suc k) this w =
     (if length (children (objs w this)) = 0 then (Inr EMPTY, w)
      else
        (case getBounds_loop
                (\<lambda>c w'. case cls (objs w' c) of
                           DisplayObjectContainer \<Rightarrow> getBounds gb k c w'
                         | OtherDisplayObject \<Rightarrow>
                             (Inr (BoundsOf c), upd_obj c (\<lambda>d. d\<lparr>bounds := gb d\<rparr>) w'))
                (children (objs w this)) (Infinity, Infinity, NegInfinity, NegInfinity, False) w of
           (Inl e, w1) \<Rightarrow> (Inl e, w1)
         | (Inr (minX, minY, maxX, maxY, childVisible), w1) \<Rightarrow>
             (if \<not> childVisible then (Inr EMPTY, w1)
              else
                (Inr (BoundsOf this),
                 upd_obj this
                   (\<lambda>d. d\<lparr>bounds := \<lparr>rect_x = minX, rect_y = minY,
                                      rect_width = num_sub maxX minX,
                                      rect_height = num_sub maxY minY\<rparr>\<rparr>) w1))))"

definition getLocalBounds :: "(dobj \<Rightarrow> rectangle) \<Rightarrow> nat \<Rightarrow> ref \<Rightarrow> world \<Rightarrow> rect_ref res" where
  "getLocalBounds gb k this w =
     (let matrixCache = worldTransform (objs w this);
          w1 = upd_obj this (\<lambda>d. d\<lparr>worldTransform := IDENTITY\<rparr>) w
      in (case forEach (updateTransform k) (children (objs w1 this)) w1 of
            (Inl e, w2) \<Rightarrow> (Inl e, w2)
          | (Inr _, w2) \<Rightarrow>
              getBounds gb (Suc k) this (upd_obj this (\<lambda>d. d\<lparr>worldTransform := matrixCache\<rparr>) w2)))"

text \<open>The setters of the \<open>width\<close> and \<open>height\<close> properties.\<close>

definition set_width :: "(dobj \<Rightarrow> rectangle) \<Rightarrow> nat \<Rightarrow> ref \<Rightarrow> number \<Rightarrow> world \<Rightarrow> unit res" where
  "set_width gb k this v w =
     (case getLocalBounds gb k this w of
        (Inl e, w1) \<Rightarrow> (Inl e, w1)
      | (Inr r, w1) \<Rightarrow>
          (let width = rect_width (deref w1 r);
               w2 = (if \<not> num_eq width (Num 0)
                     then upd_obj this (\<lambda>d. d\<lparr>scale_x := num_div v width\<rparr>) w1
                     else upd_obj this (\<lambda>d. d\<lparr>scale_x := Num 1\<rparr>) w1)
           in (Inr (), upd_obj this (\<lambda>d. d\<lparr>width_field := v\<rparr>) w2)))"

definition set_height :: "(dobj \<Rightarrow> rectangle) \<Rightarrow> nat \<Rightarrow> ref \<Rightarrow> number \<Rightarrow> world \<Rightarrow> unit res" where
  "set_height gb k this v w =
     (case getLocalBounds gb k this w of
        (Inl e, w1) \<Rightarrow> (Inl e, w1)
      | (Inr r, w1) \<Rightarrow>
          (let height = rect_height (deref w1 r);
               w2 = (if \<not> num_eq height (Num 0)
                     then upd_obj this (\<lambda>d. d\<lparr>scale_y := num_div v height\<rparr>) w1
                     else upd_obj this (\<lambda>d. d\<lparr>scale_y := Num 1\<rparr>) w1)
           in (Inr (), upd_obj this (\<lambda>d. d\<lparr>height_field := v\<rparr>) w2)))"

section \<open>Render dispatch\<close>

definition emit :: "call list \<Rightarrow> world \<Rightarrow> world" where
  "emit cs w = w\<lparr>calls := calls w @ cs\<rparr>"

primrec renderWebGL :: "nat \<Rightarrow> ref \<Rightarrow> world \<Rightarrow> unit res" where
  "renderWebGL 0 this w = (Inl OutOfFuel, w)"
| "renderWebGL (Suc k) this w =
     (if \<not> visible (objs w this) \<or> num_le (alpha (objs w this)) (Num 0) then (Inr (), w)
      else if cacheAsBitmap (objs w this) then (Inr (), emit [RenderCachedSprite this] w)
      else if mask (objs w this) \<noteq> None \<or> filters (objs w this) \<noteq> None then
        (let w1 = (if filters (objs w this) \<noteq> None
                   then emit [SpriteBatch_flush, FilterManager_pushFilter this] w else w);
             w2 = (case mask (objs w1 this) of
                     Some m \<Rightarrow> emit [SpriteBatch_stop, MaskManager_pushMask m, SpriteBatch_start] w1
                   | None \<Rightarrow> w1)
         in (case forEach
                    (\<lambda>c w'. case cls (objs w' c) of
                               DisplayObjectContainer \<Rightarrow> renderWebGL k c w'
                             | OtherDisplayObject \<Rightarrow> (Inr (), emit [RenderOverride c] w'))
                    (children (objs w2 this)) w2 of
               (Inl e, w3) \<Rightarrow> (Inl e, w3)
             | (Inr _, w3) \<Rightarrow>
                 (let w4 = emit [SpriteBatch_stop] w3;
                      w5 = (case mask (objs w4 this) of
                              Some m \<Rightarrow> emit [MaskManager_popMask (Some m)] w4
                            | None \<Rightarrow> w4);
                      w6 = (if filters (objs w5 this) \<noteq> None
                            then emit [FilterManager_popFilter] w5 else w5)
                  in (Inr (), emit [SpriteBatch_start] w6))))
      else
        forEach
          (\<lambda>c w'. case cls (objs w' c) of
                     DisplayObjectContainer \<Rightarrow> renderWebGL k c w'
                   | OtherDisplayObject \<Rightarrow> (Inr (), emit [RenderOverride c] w'))
          (children (objs w this)) w)"

primrec renderCanvas :: "nat \<Rightarrow> ref \<Rightarrow> world \<Rightarrow> unit res" where
  "renderCanvas 0 this w = (Inl OutOfFuel, w)"
| "renderCanvas (Suc k) this w =
     (if visible (objs w this) = False \<or> num_eq (alpha (objs w this)) (Num 0) then (Inr (), w)
      else if cacheAsBitmap (objs w this) then (Inr (), emit [RenderCachedSprite this] w)
      else
        (let w1 = (case mask (objs w this) of
                     Some m \<Rightarrow> emit [MaskManager_pushMask m] w
                   | None \<Rightarrow> w)
         in (case forEach
                    (\<lambda>c w'. case cls (objs w' c) of
                               DisplayObjectContainer \<Rightarrow> renderCanvas k c w'
                             | OtherDisplayObject \<Rightarrow> (Inr (), emit [RenderOverride c] w'))
                    (children (objs w1 this)) w1 of
               (Inl e, w2) \<Rightarrow> (Inl e, w2)
             | (Inr _, w2) \<Rightarrow>
                 (case mask (objs w2 this) of
                    Some m \<Rightarrow> (Inr (), emit [MaskManager_popMask None] w2)
                  | None \<Rightarrow> (Inr (), w2)))))"

section \<open>Well-formed subtrees\<close>

text \<open>
  The recursions over the children come back exactly on a finite tree.  \<open>depth_le k w x\<close>:
  below \<open>x\<close> every chain of children ends within \<open>k\<close> levels.  \<open>subtree k w x\<close>: the objects
  reached from \<open>x\<close> within \<open>k\<close> levels, each as often as it is reached.
\<close>

primrec depth_le :: "nat \<Rightarrow> world \<Rightarrow> ref \<Rightarrow> bool" where
  "depth_le 0 w x = False"
| "depth_le (Suc k) w x = (\<forall>c\<in>set (children (objs w x)). depth_le k w c)"

primrec subtree :: "nat \<Rightarrow> world \<Rightarrow> ref \<Rightarrow> ref list" where
  "subtree 0 w x = []"
| "subtree (Suc k) w x = x # concat (map (subtree k w) (children (objs w x)))"

text \<open>Two stores that differ in the \<open>stage\<close> fields of their objects at most.\<close>

definition stage_frame :: "world \<Rightarrow> world \<Rightarrow> bool" where
  "stage_frame w w' = (\<forall>n. objs w' n = (objs w n)\<lparr>stage := stage (objs w' n)\<rparr>)"

text \<open>
  The subtrees under the objects \<open>cs\<close> can be detached from their stage one after the
  other: they are finite, no object occurs twice in them, and every interactive object
  in them has a stage to mark dirty.
\<close>

definition forest :: "nat \<Rightarrow> world \<Rightarrow> ref list \<Rightarrow> ref list" where
  "forest k w cs = concat (map (subtree k w) cs)"

definition detachable :: "nat \<Rightarrow> world \<Rightarrow> ref list \<Rightarrow> bool" where
  "detachable k w cs =
     ((\<forall>c\<in>set cs. depth_le k w c) \<and> distinct (forest k w cs) \<and>
      (\<forall>n\<in>set (forest k w cs). interactive (objs w n) \<longrightarrow> stage (objs w n) \<noteq> None))"

text \<open>
  The store after the child at position \<open>i\<close> of \<open>p\<close> is taken out (its parent reference
  cleared, the list closed up), and the store after a child is put in at position \<open>i\<close>.
\<close>

definition detach :: "ref \<Rightarrow> ref \<Rightarrow> nat \<Rightarrow> world \<Rightarrow> world" where
  "detach p child i w =
     upd_obj p (\<lambda>d. d\<lparr>children := take i (children d) @ drop (Suc i) (children d)\<rparr>)
       (upd_obj child (\<lambda>d. d\<lparr>parent := None\<rparr>) w)"

definition attach :: "ref \<Rightarrow> ref \<Rightarrow> nat \<Rightarrow> world \<Rightarrow> world" where
  "attach this child i w =
     upd_obj this (\<lambda>d. d\<lparr>children := take i (children d) @ [child] @ drop i (children d)\<rparr>)
       (upd_obj child (\<lambda>d. d\<lparr>parent := Some this\<rparr>) w)"

section \<open>The bounds of the children\<close>

text \<open>
  The dynamic call \<open>this.children[i].getBounds()\<close> as \<open>getBounds\<close> makes it with \<open>k\<close>
  levels of recursion left.
\<close>

definition child_getBounds :: "(dobj \<Rightarrow> rectangle) \<Rightarrow> nat \<Rightarrow> ref \<Rightarrow> world \<Rightarrow> rect_ref res" where
  "child_getBounds gb k c w =
     (case cls (objs w c) of
        DisplayObjectContainer \<Rightarrow> getBounds gb k c w
      | OtherDisplayObject \<Rightarrow> (Inr (BoundsOf c), upd_obj c (\<lambda>d. d\<lparr>bounds := gb d\<rparr>) w))"

text \<open>
  The bounds of the visible children: the rectangles their \<open>getBounds\<close> return, each
  read when the call returns, in the order of the children.
\<close>

fun childBounds_list ::
  "(ref \<Rightarrow> world \<Rightarrow> rect_ref res) \<Rightarrow> ref list \<Rightarrow> world \<Rightarrow> (rectangle list) res" where
  "childBounds_list gbc [] w = (Inr [], w)"
| "childBounds_list gbc (child # rest) w =
     (if \<not> visible (objs w child) then childBounds_list gbc rest w
      else
        (case gbc child w of
           (Inl e, w1) \<Rightarrow> (Inl e, w1)
         | (Inr r, w1) \<Rightarrow>
             (case childBounds_list gbc rest w1 of
                (Inl e, w2) \<Rightarrow> (Inl e, w2)
              | (Inr rs, w2) \<Rightarrow> (Inr (deref w1 r # rs), w2))))"

text \<open>One step of the bounds loop on the running values.\<close>

definition grow :: "bounds_acc \<Rightarrow> rectangle \<Rightarrow> bounds_acc" where
  "grow acc childBounds =
     (case acc of (minX, minY, maxX, maxY, childVisible) \<Rightarrow>
        (if num_lt minX (rect_x childBounds) then minX else rect_x childBounds,
         if num_lt minY (rect_y childBounds) then minY else rect_y childBounds,
         if num_gt maxX (num_add (rect_width childBounds) (rect_x childBounds)) then maxX
         else num_add (rect_width childBounds) (rect_x childBounds),
         if num_gt maxY (num_add (rect_height childBounds) (rect_y childBounds)) then maxY
         else num_add (rect_height childBounds) (rect_y childBounds),
         True))"





text \<open>Two stores that differ in the \<open>_bounds\<close> rectangles of their objects at most.\<close>

definition bounds_frame :: "world \<Rightarrow> world \<Rightarrow> bool" where
  "bounds_frame w w' = (\<forall>n. objs w' n = (objs w n)\<lparr>bounds := bounds (objs w' n)\<rparr>)"

text \<open>Two stores that differ in the world transforms of their objects at most.\<close>

definition transform_frame :: "world \<Rightarrow> world \<Rightarrow> bool" where
  "transform_frame w w' =
     (\<forall>n. objs w' n = (objs w n)\<lparr>worldTransform := worldTransform (objs w' n)\<rparr>)"

section \<open>The single-parent invariant\<close>

text \<open>
  The single-parent invariant: an object's parent reference names a container exactly
  when that container's child list holds the object, and a child list holds no object
  twice.  So a parent reference is unset or names the one container that lists the
  object, and no object is in the lists of two containers.
\<close>

definition single_parent :: "world \<Rightarrow> bool" where
  "single_parent w =
     ((\<forall>n p. parent (objs w n) = Some p \<longleftrightarrow> n \<in> set (children (objs w p)))
      \<and> (\<forall>p. distinct (children (objs w p))))"

section \<open>Example stores\<close>

text \<open>A freshly constructed, empty, detached container, and a store of such objects.\<close>

definition blank :: dobj where
  "blank = \<lparr>cls = DisplayObjectContainer, parent = None, children = [], stage = None,
            interactive = False, visible = True, alpha = Num 1, cacheAsBitmap = False,
            mask = None, filters = None, scale_x = Num 1, scale_y = Num 1,
            width_field = Num 0, height_field = Num 0, bounds = Rectangle_EMPTY,
            worldTransform = IDENTITY\<rparr>"

definition mk_world :: "(ref \<Rightarrow> dobj) \<Rightarrow> world" where
  "mk_world f = \<lparr>objs = f, dirty = (\<lambda>_. False), calls = []\<rparr>"

definition world_empty :: world where
  "world_empty = mk_world (\<lambda>_. blank)"

text \<open>Container 0 owns object 1; the other objects are detached and empty.\<close>

definition world_pair :: world where
  "world_pair = mk_world ((\<lambda>_. blank)(0 := blank\<lparr>children := [1]\<rparr>, 1 := blank\<lparr>parent := Some 0\<rparr>))"

text \<open>Container 0 with the three children 1, 2, 3.\<close>

definition world_three :: world where
  "world_three = mk_world ((\<lambda>_. blank)(0 := blank\<lparr>children := [1, 2, 3]\<rparr>,
      1 := blank\<lparr>parent := Some 0\<rparr>, 2 := blank\<lparr>parent := Some 0\<rparr>,
      3 := blank\<lparr>parent := Some 0\<rparr>))"

text \<open>Container 0 with two invisible children.\<close>

definition world_hidden :: world where
  "world_hidden = mk_world ((\<lambda>_. blank)(0 := blank\<lparr>children := [1, 2]\<rparr>,
      1 := blank\<lparr>parent := Some 0, visible := False\<rparr>,
      2 := blank\<lparr>parent := Some 0, visible := False\<rparr>))"

text \<open>
  Container 0 with one child of another class, whose \<open>getBounds\<close> gives a rectangle
  of width 10 and height 5.
\<close>

definition world_sprite :: world where
  "world_sprite = mk_world ((\<lambda>_. blank)(0 := blank\<lparr>children := [1]\<rparr>,
      1 := blank\<lparr>cls := OtherDisplayObject, parent := Some 0,
                  bounds := \<lparr>rect_x = Num 0, rect_y = Num 0,
                             rect_width = Num 10, rect_height = Num 5\<rparr>\<rparr>))"


text \<open>A container cached as a bitmap, with an alpha below zero and with alpha zero.\<close>

definition world_negative_alpha :: world where
  "world_negative_alpha =
     mk_world ((\<lambda>_. blank)(0 := blank\<lparr>alpha := Num (- 1), cacheAsBitmap := True\<rparr>))"

definition world_transparent :: world where
  "world_transparent =
     mk_world ((\<lambda>_. blank)(0 := blank\<lparr>alpha := Num 0, cacheAsBitmap := True\<rparr>))"

text \<open>
  Container 0 is attached to the stage 9 and empty; object 1 is interactive and detached.
\<close>

definition world_attached :: world where
  "world_attached = mk_world ((\<lambda>_. blank)(0 := blank\<lparr>stage := Some 9\<rparr>,
      1 := blank\<lparr>interactive := True\<rparr>))"

text \<open>Container 0, attached to the stage 9, with the interactive child 1 attached to it too.\<close>

definition world_live :: world where
  "world_live = mk_world ((\<lambda>_. blank)(0 := blank\<lparr>stage := Some 9, children := [1]\<rparr>,
      1 := blank\<lparr>interactive := True, parent := Some 0, stage := Some 9\<rparr>))"

text \<open>
  The store after \<open>container.addChildAt(child, 0)\<close> and then
  \<open>child.removeStageReference()\<close>, two public calls.
\<close>

definition world_stale :: world where
  "world_stale =
     snd (removeStageReference (Suc 0) 1 (snd (addChildAt (Suc 0) 0 1 0 world_attached)))"

section \<open>Rounding and the order of numbers\<close>

text \<open>
  An integer below \<open>2 ^ 53\<close> in absolute value is a double, and rounding leaves it as it
  is; a rounded result is never \<open>NaN\<close>.
\<close>

lemma round_half_even_of_int [simp]: "round_half_even (of_int z) = z"
  by (simp add: round_half_even_def)

lemma round_double_of_int:
  assumes "\<bar>n\<bar> < 2 ^ 53"
  shows "round_double (of_int n) = Num (of_int n)"
proof (cases "n = 0")
  case True
  then show ?thesis by (simp add: round_double_def)
next
  case False
  define a :: real where "a = \<bar>of_int n\<bar>"
  have a1: "1 \<le> a" using False by (simp add: a_def)
  have a2: "a < 2 ^ 53" using assms unfolding a_def
    by (metis of_int_abs of_int_less_numeral_power_cancel_iff)
  define L where "L = \<lfloor>log 2 a\<rfloor>"
  have L0: "0 \<le> L" using a1 by (simp add: L_def)
  have "log 2 a < 53" using a1 a2
    by (simp add: log_less_iff powr_numeral)
  then have L52: "L \<le> 52" unfolding L_def by linarith
  define j where "j = nat (52 - L)"
  have e: "max (L - 52) (- 1074) = - int j" using L0 L52 by (simp add: j_def)
  have p: "2 powr (- real j) = 1 / (2::real) ^ j"
    by (simp add: powr_minus powr_realpow divide_inverse)
  have q: "a / 2 powr of_int (- int j) = of_int (\<bar>n\<bar> * 2 ^ j)"
    by (simp add: p a_def)
  have y: "of_int (\<bar>n\<bar> * 2 ^ j) * 2 powr of_int (- int j) = a"
    by (simp add: p a_def)
  have "(2::real) ^ 53 \<le> 2 ^ 1024" by (rule power_increasing) simp_all
  with a2 have "\<not> (2::real) ^ 1024 \<le> a" by linarith
  moreover have "sgn (of_int n :: real) * a = of_int n" unfolding a_def by (rule mult_sgn_abs)
  ultimately show ?thesis
    using False unfolding round_double_def
    by (simp only: Let_def a_def[symmetric] L_def[symmetric] e q y round_half_even_of_int
          of_int_eq_0_iff if_False)
qed

lemma round_double_0 [simp]: "round_double 0 = Num 0"
  by (simp add: round_double_def)

lemma round_double_1 [simp]: "round_double 1 = Num 1"
  using round_double_of_int[of 1] by simp

lemma round_double_numeral [simp]:
  "(numeral k :: int) < 2 ^ 53 \<Longrightarrow> round_double (numeral k) = Num (numeral k)"
  using round_double_of_int[of "numeral k"] by simp

lemma round_double_neg_numeral [simp]:
  "(numeral k :: int) < 2 ^ 53 \<Longrightarrow> round_double (- numeral k) = Num (- numeral k)"
  using round_double_of_int[of "- numeral k"] by simp

lemma round_double_not_NaN [simp]: "round_double x \<noteq> NaN"
  by (simp add: round_double_def Let_def)

text \<open>
  A result of \<open>2 ^ 1024\<close> or more overflows, and a result between two doubles is rounded:
  \<open>2 ^ 1023 + 2 ^ 1023\<close> is \<open>Infinity\<close>, and \<open>2 ^ 53 + 1\<close> is \<open>2 ^ 53\<close>.
\<close>

lemma round_double_overflow:
  assumes "1024 \<le> n"
  shows "round_double (2 ^ n) = Infinity"
proof -
  define j where "j = n - 52"
  have n: "n = j + 52" using assms by (simp add: j_def)
  have l: "\<lfloor>log 2 \<bar>(2::real) ^ n\<bar>\<rfloor> = int n" by (simp add: log_nat_power)
  have e: "max (int n - 52) (- 1074) = int j" using assms by (simp add: j_def)
  have p: "(2::real) powr of_int (int j) = 2 ^ j" by (simp add: powr_realpow)
  have d: "\<bar>(2::real) ^ n\<bar> / 2 ^ j = of_int (2 ^ 52)" unfolding n by (simp add: power_add)
  have m: "of_int (2 ^ 52) * (2::real) ^ j = 2 ^ n" unfolding n by (simp add: power_add)
  have big: "(2::real) ^ 1024 \<le> 2 ^ n" using assms by (intro power_increasing) simp_all
  have nz: "(2::real) ^ n \<noteq> 0" "0 < (2::real) ^ n" by simp_all
  show ?thesis
    unfolding round_double_def
    by (simp only: Let_def l e p d round_half_even_of_int m big nz if_True if_False)
qed

lemma num_add_overflow: "num_add (Num (2 ^ 1023)) (Num (2 ^ 1023)) = Infinity"
proof -
  have "(2::real) ^ 1023 + 2 ^ 1023 = 2 ^ 1024" by simp
  then show ?thesis using round_double_overflow[of 1024] by simp
qed

lemma round_double_tie:
  "round_double (2 ^ 53 + 1) = Num (2 ^ 53)"
proof -
  define x :: real where "x = 2 ^ 53 + 1"
  have pos: "0 < x" "x \<noteq> 0" "\<bar>x\<bar> = x" by (simp_all add: x_def)
  have "2 powr 53 \<le> x" "x < 2 powr 54" by (simp_all add: x_def powr_numeral)
  then have "53 \<le> log 2 x" "log 2 x < 54"
    using pos by (simp_all add: le_log_iff log_less_iff)
  then have l: "\<lfloor>log 2 x\<rfloor> = 53" by linarith
  have e: "max (53 - 52) (- 1074) = (1::int)" by simp
  have d: "x / 2 powr of_int 1 = 2 ^ 52 + 1 / 2" by (simp add: x_def)
  have r: "round_half_even (2 ^ 52 + 1 / 2) = 2 ^ 52"
  proof -
    have f: "\<lfloor>(2::real) ^ 52 + 1 / 2\<rfloor> = 2 ^ 52" by (rule floor_unique) simp_all
    show ?thesis unfolding round_half_even_def Let_def f by simp
  qed
  have y: "of_int (2 ^ 52) * 2 powr of_int 1 = (2::real) ^ 53" by simp
  have small: "\<not> (2::real) ^ 1024 \<le> 2 ^ 53"
  proof -
    have "(2::real) ^ 53 < 2 ^ 1024" by (rule power_strict_increasing) simp_all
    then show ?thesis by simp
  qed
  have s: "sgn x * 2 ^ 53 = 2 ^ 53" using pos by (simp add: sgn_if)
  show ?thesis
    unfolding round_double_def x_def[symmetric]
    by (simp only: Let_def pos l e d r y small s if_False)
qed

lemma num_add_rounds: "num_add (Num (2 ^ 53)) (Num 1) = Num (2 ^ 53)"
  using round_double_tie by simp





lemma num_le_antisym: "num_le a b \<Longrightarrow> num_le b a \<Longrightarrow> a = b"
  by (cases a; cases b) (auto simp: num_le_def)



section \<open>Stores that differ in stage references\<close>

lemma objs_upd_obj [simp]: "objs (upd_obj r f w) n = (if n = r then f (objs w r) else objs w n)"
  by (simp add: upd_obj_def)

lemma dirty_upd_obj [simp]: "dirty (upd_obj r f w) = dirty w"
  by (simp add: upd_obj_def)

lemma calls_upd_obj [simp]: "calls (upd_obj r f w) = calls w"
  by (simp add: upd_obj_def)

lemma stage_frame_refl [simp]: "stage_frame w w"
  by (simp add: stage_frame_def)

lemma stage_frame_trans: "stage_frame w w1 \<Longrightarrow> stage_frame w1 w2 \<Longrightarrow> stage_frame w w2"
  unfolding stage_frame_def
proof
  fix n
  assume a: "\<forall>n. objs w1 n = (objs w n)\<lparr>stage := stage (objs w1 n)\<rparr>"
    and b: "\<forall>n. objs w2 n = (objs w1 n)\<lparr>stage := stage (objs w2 n)\<rparr>"
  have "objs w2 n = (objs w1 n)\<lparr>stage := stage (objs w2 n)\<rparr>" using b by blast
  also have "objs w1 n = (objs w n)\<lparr>stage := stage (objs w1 n)\<rparr>" using a by blast
  finally show "objs w2 n = (objs w n)\<lparr>stage := stage (objs w2 n)\<rparr>" by simp
qed

lemma stage_frame_children: "stage_frame w w' \<Longrightarrow> children (objs w' n) = children (objs w n)"
proof -
  assume "stage_frame w w'"
  then have "objs w' n = (objs w n)\<lparr>stage := stage (objs w' n)\<rparr>"
    by (simp add: stage_frame_def)
  then have "children (objs w' n) = children ((objs w n)\<lparr>stage := stage (objs w' n)\<rparr>)"
    by simp
  then show ?thesis by simp
qed

lemma stage_frame_fields:
  assumes "stage_frame w w'"
  shows "parent (objs w' n) = parent (objs w n)"
    and "interactive (objs w' n) = interactive (objs w n)"
    and "cls (objs w' n) = cls (objs w n)"
proof -
  from assms have e: "objs w' n = (objs w n)\<lparr>stage := stage (objs w' n)\<rparr>"
    by (simp add: stage_frame_def)
  have "parent (objs w' n) = parent ((objs w n)\<lparr>stage := stage (objs w' n)\<rparr>)"
    using e by simp
  then show "parent (objs w' n) = parent (objs w n)" by simp
  have "interactive (objs w' n) = interactive ((objs w n)\<lparr>stage := stage (objs w' n)\<rparr>)"
    using e by simp
  then show "interactive (objs w' n) = interactive (objs w n)" by simp
  have "cls (objs w' n) = cls ((objs w n)\<lparr>stage := stage (objs w' n)\<rparr>)"
    using e by simp
  then show "cls (objs w' n) = cls (objs w n)" by simp
qed



text \<open>A property of the store that every call of the loop keeps is kept by the loop.\<close>

lemma forEach_keeps:
  assumes "\<And>c v r v'. c \<in> set cs \<Longrightarrow> P v \<Longrightarrow> f c v = (r, v') \<Longrightarrow> P v'"
    and "P w" and "forEach f cs w = (r, w')"
  shows "P w'"
  using assms
proof (induction cs arbitrary: w)
  case Nil
  then show ?case by simp
next
  case (Cons c cs)
  obtain r1 w1 where f: "f c w = (r1, w1)" by (cases "f c w")
  have P1: "P w1" using Cons.prems(1)[of c w r1 w1] Cons.prems(2) f by simp
  show ?case
  proof (cases r1)
    case (Inl e)
    with Cons.prems(3) f have "w' = w1" by simp
    with P1 show ?thesis by simp
  next
    case (Inr u)
    with Cons.prems(3) f have "forEach f cs w1 = (r, w')" by simp
    with Cons.IH[of w1] Cons.prems(1) P1 show ?thesis by auto
  qed
qed

lemma forEach_succeeds:
  assumes "\<And>c v. c \<in> set cs \<Longrightarrow> P v \<Longrightarrow> fst (f c v) = Inr () \<and> P (snd (f c v))"
    and "P w"
  shows "fst (forEach f cs w) = Inr () \<and> P (snd (forEach f cs w))"
  using assms
proof (induction cs arbitrary: w)
  case Nil
  then show ?case by simp
next
  case (Cons c cs)
  obtain r1 w1 where f: "f c w = (r1, w1)" by (cases "f c w")
  from Cons.prems(1)[of c w] Cons.prems(2) f have r1: "r1 = Inr ()" and P1: "P w1" by auto
  from Cons.IH[of w1] Cons.prems(1) P1
  have "fst (forEach f cs w1) = Inr () \<and> P (snd (forEach f cs w1))" by auto
  with f r1 show ?case by simp
qed

lemma setStageReference_frame:
  "setStageReference k x s w = (r, w') \<Longrightarrow> stage_frame w w'"
proof (induction k arbitrary: x w r w')
  case 0
  then show ?case by simp
next
  case (Suc k)
  define w1 where "w1 = upd_obj x (\<lambda>d. d\<lparr>stage := Some s\<rparr>) w"
  define w2 where "w2 = (if interactive (objs w1 x) then w1\<lparr>dirty := (dirty w1)(s := True)\<rparr> else w1)"
  have f2: "stage_frame w w2"
    unfolding w2_def w1_def by (simp add: stage_frame_def)
  from Suc.prems have loop: "forEach (\<lambda>c. setStageReference k c s) (children (objs w2 x)) w2 = (r, w')"
    by (simp only: setStageReference.simps Let_def w1_def w2_def)
  show ?case
  proof (rule forEach_keeps[where P = "stage_frame w", OF _ f2 loop])
    fix c v r v'
    assume "stage_frame w v" and "setStageReference k c s v = (r, v')"
    then show "stage_frame w v'" using Suc.IH stage_frame_trans by blast
  qed
qed

lemma removeStageReference_frame:
  "removeStageReference k x w = (r, w') \<Longrightarrow> stage_frame w w'"
proof (induction k arbitrary: x w r w')
  case 0
  then show ?case by simp
next
  case (Suc k)
  obtain r1 w1 where loop: "forEach (removeStageReference k) (children (objs w x)) w = (r1, w1)"
    by (cases "forEach (removeStageReference k) (children (objs w x)) w")
  have f1: "stage_frame w w1"
  proof (rule forEach_keeps[where P = "stage_frame w", OF _ _ loop])
    show "stage_frame w w" by simp
  next
    fix c v r v'
    assume "stage_frame w v" and "removeStageReference k c v = (r, v')"
    then show "stage_frame w v'" using Suc.IH stage_frame_trans by blast
  qed
  have "stage_frame w1 w'"
    using Suc.prems loop
    by (auto simp: stage_frame_def split: sum.splits if_splits option.splits)
  with f1 show ?case by (rule stage_frame_trans)
qed

section \<open>Finite trees\<close>

text \<open>
  The objects visited from an object depend on the child lists of the visited objects
  only; on a finite tree no visited object lists the root as a child.
\<close>

lemma subtree_agree:
  "(\<forall>n\<in>set (subtree k w x). children (objs w' n) = children (objs w n))
   \<Longrightarrow> subtree k w' x = subtree k w x"
proof (induction k arbitrary: x)
  case 0
  show ?case by simp
next
  case (Suc k)
  have cs: "children (objs w' x) = children (objs w x)" using Suc.prems by simp
  have m: "map (subtree k w') (children (objs w x)) = map (subtree k w) (children (objs w x))"
  proof (rule map_cong[OF refl])
    fix c assume "c \<in> set (children (objs w x))"
    then have "\<forall>n\<in>set (subtree k w c). children (objs w' n) = children (objs w n)"
      using Suc.prems by auto
    then show "subtree k w' c = subtree k w c" by (rule Suc.IH)
  qed
  show ?case unfolding subtree.simps cs m ..
qed

lemma depth_le_agree:
  "(\<forall>n\<in>set (subtree k w x). children (objs w' n) = children (objs w n))
   \<Longrightarrow> depth_le k w' x = depth_le k w x"
proof (induction k arbitrary: x)
  case 0
  show ?case by simp
next
  case (Suc k)
  have cs: "children (objs w' x) = children (objs w x)" using Suc.prems by simp
  have "\<And>c. c \<in> set (children (objs w x)) \<Longrightarrow> depth_le k w' c = depth_le k w c"
  proof -
    fix c assume "c \<in> set (children (objs w x))"
    then have "\<forall>n\<in>set (subtree k w c). children (objs w' n) = children (objs w n)"
      using Suc.prems by auto
    then show "depth_le k w' c = depth_le k w c" by (rule Suc.IH)
  qed
  with cs show ?case by simp
qed

lemma stage_frame_subtree: "stage_frame w w' \<Longrightarrow> subtree k w' x = subtree k w x"
  by (rule subtree_agree) (simp add: stage_frame_children)

lemma stage_frame_depth_le: "stage_frame w w' \<Longrightarrow> depth_le k w' x = depth_le k w x"
  by (rule depth_le_agree) (simp add: stage_frame_children)

lemma depth_le_pos: "depth_le k w x \<Longrightarrow> 0 < k"
  by (cases k) auto

lemma subtree_self: "0 < k \<Longrightarrow> x \<in> set (subtree k w x)"
  by (cases k) auto


lemma subtree_closed:
  "depth_le k w c \<Longrightarrow> y \<in> set (subtree k w c) \<Longrightarrow> x \<in> set (children (objs w y))
   \<Longrightarrow> x \<in> set (subtree k w c)"
proof (induction k arbitrary: c)
  case 0
  then show ?case by simp
next
  case (Suc k)
  from Suc.prems(2) consider "y = c" | c' where "c' \<in> set (children (objs w c))" "y \<in> set (subtree k w c')"
    by auto
  then show ?case
  proof cases
    case 1
    with Suc.prems have xc: "x \<in> set (children (objs w c))" and "depth_le k w x" by auto
    then have "x \<in> set (subtree k w x)" using depth_le_pos subtree_self by blast
    with xc show ?thesis by auto
  next
    case 2
    with Suc.prems have "depth_le k w c'" by auto
    then have "x \<in> set (subtree k w c')" using 2 Suc.prems(3) Suc.IH by blast
    with 2 show ?thesis by auto
  qed
qed

lemma no_cycle:
  "depth_le k w x \<Longrightarrow> y \<in> set (subtree k w x) \<Longrightarrow> x \<notin> set (children (objs w y))"
proof (induction k arbitrary: x y)
  case 0
  then show ?case by simp
next
  case (Suc k)
  show ?case
  proof
    assume xy: "x \<in> set (children (objs w y))"
    from Suc.prems(2) consider "y = x" | c where "c \<in> set (children (objs w x))" "y \<in> set (subtree k w c)"
      by auto
    then show False
    proof cases
      case 1
      with xy Suc.prems(1) have d: "depth_le k w x" by auto
      then have "x \<in> set (subtree k w x)" using depth_le_pos subtree_self by blast
      with Suc.IH[OF d] xy 1 show False by blast
    next
      case 2
      with Suc.prems(1) have d: "depth_le k w c" by auto
      have "x \<in> set (subtree k w c)" using subtree_closed[OF d 2(2) xy] .
      with Suc.IH[OF d] 2(1) show False by blast
    qed
  qed
qed

lemma setStageReference_succeeds:
  "depth_le k w x \<Longrightarrow> fst (setStageReference k x s w) = Inr ()"
proof (induction k arbitrary: x w)
  case 0
  then show ?case by simp
next
  case (Suc k)
  define w1 where "w1 = upd_obj x (\<lambda>d. d\<lparr>stage := Some s\<rparr>) w"
  define w2 where "w2 = (if interactive (objs w1 x) then w1\<lparr>dirty := (dirty w1)(s := True)\<rparr> else w1)"
  have f2: "stage_frame w w2"
    unfolding w2_def w1_def by (simp add: stage_frame_def)
  have eq: "setStageReference (Suc k) x s w
            = forEach (\<lambda>c. setStageReference k c s) (children (objs w2 x)) w2"
    by (simp only: setStageReference.simps Let_def w1_def w2_def)
  have cs: "children (objs w2 x) = children (objs w x)"
    using f2 by (rule stage_frame_children)
  have "fst (forEach (\<lambda>c. setStageReference k c s) (children (objs w2 x)) w2) = Inr ()
        \<and> stage_frame w (snd (forEach (\<lambda>c. setStageReference k c s) (children (objs w2 x)) w2))"
  proof (rule forEach_succeeds[where P = "stage_frame w"])
    show "stage_frame w w2" by (rule f2)
  next
    fix c v
    assume c: "c \<in> set (children (objs w2 x))" and v: "stage_frame w v"
    from c cs Suc.prems have "depth_le k w c" by simp
    with v have "depth_le k v c" by (simp add: stage_frame_depth_le)
    then have 1: "fst (setStageReference k c s v) = Inr ()" by (rule Suc.IH)
    have "stage_frame v (snd (setStageReference k c s v))"
      using setStageReference_frame[of k c s v] by (cases "setStageReference k c s v") simp
    with v have "stage_frame w (snd (setStageReference k c s v))" by (rule stage_frame_trans)
    with 1 show "fst (setStageReference k c s v) = Inr () \<and> stage_frame w (snd (setStageReference k c s v))"
      by simp
  qed
  with eq show ?case by simp
qed

section \<open>Clearing stage references\<close>

text \<open>
  \<open>removeStageReference\<close> touches the visited objects only, and it returns on a
  detachable subtree.
\<close>

lemma forest_simps [simp]:
  "forest k w [] = []"
  "forest k w (c # cs) = subtree k w c @ forest k w cs"
  by (simp_all add: forest_def)


lemma forest_agree:
  "(\<forall>n\<in>set (forest k w cs). children (objs w' n) = children (objs w n))
   \<Longrightarrow> forest k w' cs = forest k w cs"
proof (induction cs)
  case Nil
  show ?case by simp
next
  case (Cons c cs)
  from Cons.prems have "subtree k w' c = subtree k w c"
    by (intro subtree_agree) simp
  moreover from Cons.prems have "forest k w' cs = forest k w cs"
    by (intro Cons.IH) simp
  ultimately show ?case by simp
qed

lemma detachable_agree:
  assumes "\<forall>n\<in>set (forest k w cs). children (objs w' n) = children (objs w n)
             \<and> interactive (objs w' n) = interactive (objs w n)
             \<and> (stage (objs w n) \<noteq> None \<longrightarrow> stage (objs w' n) \<noteq> None)"
    and "detachable k w cs"
  shows "detachable k w' cs"
proof -
  have f: "forest k w' cs = forest k w cs"
  proof (rule forest_agree)
    show "\<forall>n\<in>set (forest k w cs). children (objs w' n) = children (objs w n)"
      using assms(1) by blast
  qed
  have d: "\<And>c. c \<in> set cs \<Longrightarrow> depth_le k w' c"
  proof -
    fix c assume c: "c \<in> set cs"
    then have "set (subtree k w c) \<subseteq> set (forest k w cs)" by (auto simp: forest_def)
    with assms(1) have "\<forall>n\<in>set (subtree k w c). children (objs w' n) = children (objs w n)"
      by blast
    then have "depth_le k w' c = depth_le k w c" by (rule depth_le_agree)
    with assms(2) c show "depth_le k w' c" by (simp add: detachable_def)
  qed
  have i: "\<And>n. n \<in> set (forest k w cs) \<Longrightarrow> interactive (objs w' n) \<Longrightarrow> stage (objs w' n) \<noteq> None"
  proof -
    fix n assume n: "n \<in> set (forest k w cs)" and "interactive (objs w' n)"
    with assms(1) have "interactive (objs w n)" by blast
    with assms(2) n have "stage (objs w n) \<noteq> None" by (simp add: detachable_def)
    with assms(1) n show "stage (objs w' n) \<noteq> None" by blast
  qed
  have "distinct (forest k w cs)" using assms(2) by (simp add: detachable_def)
  with d i show ?thesis unfolding detachable_def f by blast
qed

lemma detachable_Cons:
  "detachable k w (c # cs) \<Longrightarrow> detachable k w [c] \<and> detachable k w cs
     \<and> set (subtree k w c) \<inter> set (forest k w cs) = {}"
  by (auto simp: detachable_def)

lemma removeStageReference_Suc_cases:
  assumes "removeStageReference (Suc k) x w = (r, w')"
    and "forEach (removeStageReference k) (children (objs w x)) w = (r1, w1)"
  shows "w' = w1 \<or> (\<exists>s. w' = upd_obj x (\<lambda>d. d\<lparr>stage := None\<rparr>) (w1\<lparr>dirty := (dirty w1)(s := True)\<rparr>))
         \<or> w' = upd_obj x (\<lambda>d. d\<lparr>stage := None\<rparr>) w1"
proof (cases r1)
  case (Inl e)
  with assms show ?thesis by simp
next
  case (Inr u)
  show ?thesis
  proof (cases "interactive (objs w1 x)")
    case True
    show ?thesis
    proof (cases "stage (objs w1 x)")
      case None
      with assms Inr True show ?thesis by simp
    next
      case (Some s)
      with assms Inr True show ?thesis by auto
    qed
  next
    case False
    with assms Inr show ?thesis by simp
  qed
qed

lemma removeStageReference_outside:
  "removeStageReference k x w = (r, w') \<Longrightarrow> n \<notin> set (subtree k w x) \<Longrightarrow> objs w' n = objs w n"
proof (induction k arbitrary: x w r w' n)
  case 0
  then show ?case by simp
next
  case (Suc k)
  let ?cs = "children (objs w x)"
  obtain r1 w1 where loop: "forEach (removeStageReference k) ?cs w = (r1, w1)"
    by (cases "forEach (removeStageReference k) ?cs w")
  let ?P = "\<lambda>v. stage_frame w v \<and> (\<forall>m. m \<notin> set (forest k w ?cs) \<longrightarrow> objs v m = objs w m)"
  have P1: "?P w1"
  proof (rule forEach_keeps[where P = ?P, OF _ _ loop])
    show "?P w" by simp
  next
    fix c v r v'
    assume c: "c \<in> set ?cs" and v: "?P v" and call: "removeStageReference k c v = (r, v')"
    have sf: "stage_frame w v'"
      using v removeStageReference_frame[OF call] stage_frame_trans by blast
    have sub: "subtree k v c = subtree k w c" using v by (simp add: stage_frame_subtree)
    have "\<And>m. m \<notin> set (forest k w ?cs) \<Longrightarrow> objs v' m = objs w m"
    proof -
      fix m assume m: "m \<notin> set (forest k w ?cs)"
      with c have "m \<notin> set (subtree k v c)" unfolding sub by (auto simp: forest_def)
      then have "objs v' m = objs v m" using Suc.IH[OF call] by blast
      with v m show "objs v' m = objs w m" by simp
    qed
    with sf show "?P v'" by blast
  qed
  from Suc.prems(2) have nx: "n \<noteq> x" and nf: "n \<notin> set (forest k w ?cs)"
    by (auto simp: forest_def)
  have "objs w' n = objs w1 n"
    using removeStageReference_Suc_cases[OF Suc.prems(1) loop] nx by auto
  with P1 nf show ?case by simp
qed

lemma removeStageReference_loop_succeeds:
  assumes IH: "\<And>x w. detachable k w [x] \<Longrightarrow> fst (removeStageReference k x w) = Inr ()"
  shows "detachable k w cs \<Longrightarrow> fst (forEach (removeStageReference k) cs w) = Inr ()"
proof (induction cs arbitrary: w)
  case Nil
  show ?case by simp
next
  case (Cons c cs)
  from detachable_Cons[OF Cons.prems]
  have c: "detachable k w [c]" and cs: "detachable k w cs"
    and disj: "set (subtree k w c) \<inter> set (forest k w cs) = {}" by auto
  obtain r1 w1 where call: "removeStageReference k c w = (r1, w1)"
    by (cases "removeStageReference k c w")
  from IH[OF c] call have r1: "r1 = Inr ()" by simp
  have "detachable k w1 cs"
  proof (rule detachable_agree[OF _ cs])
    show "\<forall>n\<in>set (forest k w cs). children (objs w1 n) = children (objs w n)
             \<and> interactive (objs w1 n) = interactive (objs w n)
             \<and> (stage (objs w n) \<noteq> None \<longrightarrow> stage (objs w1 n) \<noteq> None)"
    proof
      fix n assume "n \<in> set (forest k w cs)"
      with disj have "n \<notin> set (subtree k w c)" by auto
      then have "objs w1 n = objs w n" using removeStageReference_outside[OF call] by simp
      then show "children (objs w1 n) = children (objs w n)
             \<and> interactive (objs w1 n) = interactive (objs w n)
             \<and> (stage (objs w n) \<noteq> None \<longrightarrow> stage (objs w1 n) \<noteq> None)" by simp
    qed
  qed
  then have "fst (forEach (removeStageReference k) cs w1) = Inr ()" by (rule Cons.IH)
  with call r1 show ?case by simp
qed

lemma removeStageReference_succeeds:
  "detachable k w [x] \<Longrightarrow> fst (removeStageReference k x w) = Inr ()"
proof (induction k arbitrary: x w)
  case 0
  then show ?case by (simp add: detachable_def)
next
  case (Suc k)
  let ?cs = "children (objs w x)"
  from Suc.prems have d: "\<forall>c\<in>set ?cs. depth_le k w c"
    and dist: "distinct (x # forest k w ?cs)"
    and int: "\<forall>n\<in>set (x # forest k w ?cs). interactive (objs w n) \<longrightarrow> stage (objs w n) \<noteq> None"
    by (auto simp: detachable_def forest_def)
  have cs: "detachable k w ?cs" using d dist int by (simp add: detachable_def)
  obtain r1 w1 where loop: "forEach (removeStageReference k) ?cs w = (r1, w1)"
    by (cases "forEach (removeStageReference k) ?cs w")
  have r1: "r1 = Inr ()"
    using removeStageReference_loop_succeeds[of k w ?cs, OF Suc.IH cs] loop by simp
  let ?P = "\<lambda>v. stage_frame w v \<and> objs v x = objs w x"
  have "?P w1"
  proof (rule forEach_keeps[where P = ?P, OF _ _ loop])
    show "?P w" by simp
  next
    fix c v r v'
    assume c: "c \<in> set ?cs" and v: "?P v" and call: "removeStageReference k c v = (r, v')"
    have sub: "subtree k v c = subtree k w c" using v by (simp add: stage_frame_subtree)
    from c dist have "x \<notin> set (subtree k v c)" unfolding sub by (auto simp: forest_def)
    then have "objs v' x = objs v x" using removeStageReference_outside[OF call] by simp
    with v removeStageReference_frame[OF call] show "?P v'"
      using stage_frame_trans by auto
  qed
  then have x: "objs w1 x = objs w x" by simp
  show ?case
  proof (cases "interactive (objs w x)")
    case True
    with int obtain s where "stage (objs w x) = Some s" by auto
    with loop r1 x True show ?thesis by simp
  next
    case False
    with loop r1 x show ?thesis by simp
  qed
qed

section \<open>Facts about the arrays\<close>

lemma indexOf_ge: "- 1 \<le> indexOf xs v"
  by (induction xs) (auto simp: Let_def)

lemma indexOf_notin: "indexOf xs v = - 1 \<longleftrightarrow> v \<notin> set xs"
proof (induction xs)
  case Nil
  show ?case by simp
next
  case (Cons x xs)
  have "- 1 \<le> indexOf xs v" by (rule indexOf_ge)
  with Cons show ?case by (auto simp: Let_def)
qed

lemma indexOf_in:
  "v \<in> set xs \<Longrightarrow> 0 \<le> indexOf xs v \<and> indexOf xs v < int (length xs)
     \<and> xs ! nat (indexOf xs v) = v"
proof (induction xs)
  case Nil
  then show ?case by simp
next
  case (Cons x xs)
  show ?case
  proof (cases "x = v")
    case True
    then show ?thesis by simp
  next
    case False
    with Cons.prems have v: "v \<in> set xs" by simp
    then have ne: "indexOf xs v \<noteq> - 1" by (simp add: indexOf_notin)
    from Cons.IH[OF v] have ih: "0 \<le> indexOf xs v" "indexOf xs v < int (length xs)"
      "xs ! nat (indexOf xs v) = v" by auto
    have "nat (indexOf xs v + 1) = Suc (nat (indexOf xs v))" using ih(1) by simp
    with False ne ih show ?thesis by (simp add: Let_def)
  qed
qed

lemma indexOf_nth: "distinct xs \<Longrightarrow> i < length xs \<Longrightarrow> indexOf xs (xs ! i) = int i"
proof (induction xs arbitrary: i)
  case Nil
  then show ?case by simp
next
  case (Cons x xs)
  show ?case
  proof (cases i)
    case 0
    then show ?thesis by simp
  next
    case (Suc j)
    with Cons.prems have j: "j < length xs" and d: "distinct xs" and x: "x \<notin> set xs" by auto
    then have "xs ! j \<noteq> x" by (metis nth_mem)
    with Cons.IH[OF d j] Suc show ?thesis by (simp add: Let_def)
  qed
qed

lemma splice_insert:
  "0 \<le> i \<Longrightarrow> snd (array_splice i 0 [v] xs) = take (nat i) xs @ [v] @ drop (nat i) xs"
  by (auto simp: array_splice_def Let_def min_def)

lemma splice_remove:
  "0 \<le> i \<Longrightarrow> i < int (length xs)
   \<Longrightarrow> snd (array_splice i 1 [] xs) = take (nat i) xs @ drop (Suc (nat i)) xs"
proof -
  assume a: "0 \<le> i" "i < int (length xs)"
  then have "nat (i + 1) = Suc (nat i)" by simp
  with a show ?thesis by (simp add: array_splice_def Let_def min_def max_def)
qed

lemma splice_range:
  "0 \<le> b \<Longrightarrow> 0 < n
   \<Longrightarrow> array_splice b n [] xs = (take (nat n) (drop (nat b) xs), take (nat b) xs @ drop (nat b + nat n) xs)"
proof -
  assume b: "0 \<le> b" and n: "0 < n"
  let ?len = "int (length xs)"
  show ?thesis
  proof (cases "b \<le> ?len")
    case True
    then have as: "(if b < 0 then max (?len + b) 0 else min b ?len) = b" using b by simp
    show ?thesis
    proof (cases "n \<le> ?len - b")
      case le: True
      then have dc: "min (max n 0) (?len - b) = n" using n by simp
      have "nat (b + n) = nat b + nat n" using b n by (simp add: nat_add_distrib)
      then show ?thesis unfolding array_splice_def Let_def as dc by simp
    next
      case gt: False
      then have dc: "min (max n 0) (?len - b) = ?len - b" using n by simp
      have 1: "nat (b + (?len - b)) = length xs" by simp
      have 2: "length (drop (nat b) xs) \<le> nat n" using gt b by simp
      have 3: "length xs \<le> nat b + nat n" using gt b n by linarith
      have 4: "nat (?len - b) = length (drop (nat b) xs)" using True b by simp
      show ?thesis unfolding array_splice_def Let_def as dc 1 using 2 3 4 by simp
    qed
  next
    case False
    then have as: "(if b < 0 then max (?len + b) 0 else min b ?len) = ?len" using b by simp
    have 1: "length xs \<le> nat b" using False by simp
    then have 3: "length xs \<le> nat b + nat n" by simp
    show ?thesis unfolding array_splice_def Let_def as using 1 3 by simp
  qed
qed

section \<open>Effect of the removal and insertion operations\<close>

text \<open>
  What \<open>removeChildAt\<close>, \<open>removeChild\<close> and \<open>addChildAt\<close> leave behind, in every outcome,
  and when they return.
\<close>

lemma upd_obj_cong: "f (objs w r) = g (objs w r) \<Longrightarrow> upd_obj r f w = upd_obj r g w"
  by (simp add: upd_obj_def)

lemma removeChildAt_effect:
  assumes "removeChildAt k p i w = (r, w')"
  shows "(r = Inl IndexError \<and> w' = w \<and> (i < 0 \<or> int (length (children (objs w p))) \<le> i))
       \<or> (0 \<le> i \<and> i < int (length (children (objs w p))) \<and>
           ((\<exists>e. r = Inl e \<and> stage_frame w w' \<and> stage (objs w p) \<noteq> None) \<or>
            (r = Inr (children (objs w p) ! nat i) \<and>
             (\<exists>wa. stage_frame w wa \<and> w' = detach p (children (objs w p) ! nat i) (nat i) wa))))"
proof (cases "i < 0 \<or> int (length (children (objs w p))) \<le> i")
  case True
  with assms show ?thesis by (auto simp: removeChildAt_def getChildAt_def)
next
  case False
  then have i: "0 \<le> i" "i < int (length (children (objs w p)))" by auto
  let ?child = "children (objs w p) ! nat i"
  have g: "getChildAt p i w = Inr ?child" using i by (simp add: getChildAt_def)
  obtain r1 w1 where call:
    "(if stage (objs w p) \<noteq> None then removeStageReference k ?child w else (Inr (), w)) = (r1, w1)"
    by (cases "if stage (objs w p) \<noteq> None then removeStageReference k ?child w else (Inr (), w)")
  have sf: "stage_frame w w1"
    using call removeStageReference_frame by (auto split: if_splits)
  show ?thesis
  proof (cases r1)
    case (Inl e)
    with assms g call have "r = Inl e" "w' = w1" by (auto simp: removeChildAt_def)
    moreover from call Inl have "stage (objs w p) \<noteq> None" by (auto split: if_splits)
    ultimately show ?thesis using i sf by auto
  next
    case (Inr u)
    let ?w2 = "upd_obj ?child (\<lambda>d. d\<lparr>parent := None\<rparr>) w1"
    have cs: "children (objs ?w2 p) = children (objs w p)"
      using stage_frame_children[OF sf, of p] by simp
    have "upd_obj p (\<lambda>d. d\<lparr>children := snd (array_splice i 1 [] (children d))\<rparr>) ?w2
          = detach p ?child (nat i) w1"
      unfolding detach_def
      by (rule upd_obj_cong) (simp only: cs splice_remove[OF i])
    with assms g call Inr have "r = Inr ?child" "w' = detach p ?child (nat i) w1"
      by (auto simp: removeChildAt_def Let_def)
    with i sf show ?thesis by auto
  qed
qed

lemma removeChildAt_succeeds:
  assumes "0 \<le> i" "i < int (length (children (objs w p)))"
    and "stage (objs w p) \<noteq> None \<longrightarrow> detachable k w [children (objs w p) ! nat i]"
  shows "fst (removeChildAt k p i w) = Inr (children (objs w p) ! nat i)"
proof -
  let ?child = "children (objs w p) ! nat i"
  have g: "getChildAt p i w = Inr ?child" using assms by (simp add: getChildAt_def)
  show ?thesis
  proof (cases "stage (objs w p) \<noteq> None")
    case True
    with assms(3) have "detachable k w [?child]" by simp
    then have "fst (removeStageReference k ?child w) = Inr ()"
      by (rule removeStageReference_succeeds)
    then obtain w1 where "removeStageReference k ?child w = (Inr (), w1)"
      by (cases "removeStageReference k ?child w") simp
    with g True show ?thesis by (simp add: removeChildAt_def Let_def)
  next
    case False
    with g show ?thesis by (simp add: removeChildAt_def Let_def)
  qed
qed

lemma removeChild_effect:
  assumes "removeChild k p child w = (r, w')"
  shows "(child \<notin> set (children (objs w p)) \<and> r = Inr None \<and> w' = w)
       \<or> (child \<in> set (children (objs w p)) \<and>
           ((\<exists>e. r = Inl e \<and> stage_frame w w' \<and> stage (objs w p) \<noteq> None) \<or>
            (r = Inr (Some child) \<and>
             (\<exists>wa. stage_frame w wa
                \<and> w' = detach p child (nat (indexOf (children (objs w p)) child)) wa))))"
proof (cases "child \<in> set (children (objs w p))")
  case False
  then have "indexOf (children (objs w p)) child = - 1" by (simp add: indexOf_notin)
  with assms False show ?thesis by (simp add: removeChild_def)
next
  case True
  let ?i = "indexOf (children (objs w p)) child"
  from indexOf_in[OF True] have i: "0 \<le> ?i" "?i < int (length (children (objs w p)))"
    and nth: "children (objs w p) ! nat ?i = child" by auto
  then have ne: "?i \<noteq> - 1" by simp
  obtain r1 w1 where call: "removeChildAt k p ?i w = (r1, w1)"
    by (cases "removeChildAt k p ?i w")
  from assms ne call have rw: "(case r1 of Inl e \<Rightarrow> (Inl e, w1) | Inr c \<Rightarrow> (Inr (Some c), w1)) = (r, w')"
    by (simp add: removeChild_def Let_def split: sum.splits)
  from removeChildAt_effect[OF call] i nth
  consider e where "r1 = Inl e" "stage_frame w w1" "stage (objs w p) \<noteq> None"
    | wa where "r1 = Inr child" "stage_frame w wa" "w1 = detach p child (nat ?i) wa"
    by auto
  then show ?thesis
  proof cases
    case 1
    with rw True show ?thesis by auto
  next
    case 2
    with rw True show ?thesis by auto
  qed
qed

lemma removeChild_succeeds:
  assumes "child \<in> set (children (objs w p)) \<longrightarrow> stage (objs w p) \<noteq> None \<longrightarrow> detachable k w [child]"
  shows "\<exists>v. fst (removeChild k p child w) = Inr v"
proof (cases "child \<in> set (children (objs w p))")
  case False
  then have "indexOf (children (objs w p)) child = - 1" by (simp add: indexOf_notin)
  then show ?thesis by (simp add: removeChild_def)
next
  case True
  let ?i = "indexOf (children (objs w p)) child"
  from indexOf_in[OF True] have i: "0 \<le> ?i" "?i < int (length (children (objs w p)))"
    and nth: "children (objs w p) ! nat ?i = child" by auto
  then have ne: "?i \<noteq> - 1" by simp
  have "fst (removeChildAt k p ?i w) = Inr child"
    using removeChildAt_succeeds[OF i, of k] assms True nth by simp
  then obtain w1 where "removeChildAt k p ?i w = (Inr child, w1)"
    by (cases "removeChildAt k p ?i w") simp
  with ne show ?thesis by (simp add: removeChild_def Let_def)
qed

lemma detach_fields [simp]:
  "children (objs (detach p child i w) n)
     = (if n = p then take i (children (objs w p)) @ drop (Suc i) (children (objs w p))
        else children (objs w n))"
  "parent (objs (detach p child i w) n)
     = (if n = child then None else parent (objs w n))"
  "stage (objs (detach p child i w) n) = stage (objs w n)"
  "interactive (objs (detach p child i w) n) = interactive (objs w n)"
  by (simp_all add: detach_def)

lemma attach_fields [simp]:
  "children (objs (attach this child i w) n)
     = (if n = this then take i (children (objs w this)) @ [child] @ drop i (children (objs w this))
        else children (objs w n))"
  "parent (objs (attach this child i w) n)
     = (if n = child then Some this else parent (objs w n))"
  "stage (objs (attach this child i w) n) = stage (objs w n)"
  "interactive (objs (attach this child i w) n) = interactive (objs w n)"
  by (simp_all add: attach_def)


lemma unparent_succeeds:
  assumes "\<forall>p. parent (objs w child) = Some p \<and> child \<in> set (children (objs w p))
             \<and> stage (objs w p) \<noteq> None \<longrightarrow> detachable k w [child]"
  shows "\<exists>v w1. (case parent (objs w child) of None \<Rightarrow> (Inr None, w)
                  | Some p \<Rightarrow> removeChild k p child w) = (Inr v, w1)
           \<and> ((w1 = w \<and> (\<forall>p. parent (objs w child) = Some p \<longrightarrow> child \<notin> set (children (objs w p))))
              \<or> (\<exists>p wa. parent (objs w child) = Some p \<and> child \<in> set (children (objs w p))
                    \<and> stage_frame w wa
                    \<and> w1 = detach p child (nat (indexOf (children (objs w p)) child)) wa))"
proof (cases "parent (objs w child)")
  case None
  then show ?thesis by simp
next
  case (Some p)
  have "\<exists>v. fst (removeChild k p child w) = Inr v"
    by (rule removeChild_succeeds) (use assms Some in blast)
  then obtain v w1 where call: "removeChild k p child w = (Inr v, w1)"
    by (cases "removeChild k p child w") auto
  from removeChild_effect[OF call]
  have "(child \<notin> set (children (objs w p)) \<and> w1 = w)
     \<or> (child \<in> set (children (objs w p)) \<and>
         (\<exists>wa. stage_frame w wa \<and> w1 = detach p child (nat (indexOf (children (objs w p)) child)) wa))"
    by auto
  with Some call show ?thesis by auto
qed

lemma addChildAt_succeeds:
  assumes idx: "0 \<le> index" "index \<le> int (length (children (objs w this)))"
    and det: "\<forall>p. parent (objs w child) = Some p \<and> child \<in> set (children (objs w p))
                \<and> stage (objs w p) \<noteq> None \<longrightarrow> detachable k w [child]"
    and tree: "depth_le k w child" "this \<notin> set (subtree k w child)"
  shows "\<exists>w1 w'. addChildAt k this child index w = (Inr child, w')
           \<and> stage_frame (attach this child (nat index) w1) w'
           \<and> ((w1 = w \<and> (\<forall>p. parent (objs w child) = Some p \<longrightarrow> child \<notin> set (children (objs w p))))
              \<or> (\<exists>p wa. parent (objs w child) = Some p \<and> child \<in> set (children (objs w p))
                    \<and> stage_frame w wa
                    \<and> w1 = detach p child (nat (indexOf (children (objs w p)) child)) wa))"
proof -
  let ?step = "case parent (objs w child) of None \<Rightarrow> (Inr None, w)
               | Some p \<Rightarrow> removeChild k p child w"
  let ?D = "\<lambda>w1. (w1 = w \<and> (\<forall>p. parent (objs w child) = Some p \<longrightarrow> child \<notin> set (children (objs w p))))
              \<or> (\<exists>p wa. parent (objs w child) = Some p \<and> child \<in> set (children (objs w p))
                    \<and> stage_frame w wa
                    \<and> w1 = detach p child (nat (indexOf (children (objs w p)) child)) wa)"
  have "\<exists>v w1. ?step = (Inr v, w1) \<and> ?D w1"
    by (rule unparent_succeeds[OF det])
  then obtain v w1 where step: "?step = (Inr v, w1)" and w1: "?D w1" by blast
  let ?w2 = "upd_obj child (\<lambda>d. d\<lparr>parent := Some this\<rparr>) w1"
  let ?w3 = "attach this child (nat index) w1"
  have w3: "upd_obj this (\<lambda>d. d\<lparr>children := snd (array_splice index 0 [child] (children d))\<rparr>) ?w2 = ?w3"
    unfolding attach_def by (rule upd_obj_cong) (simp only: splice_insert[OF idx(1)])
  have unfold: "addChildAt k this child index w
      = (case stage (objs ?w3 this) of
           None \<Rightarrow> (Inr child, ?w3)
         | Some s \<Rightarrow> (case setStageReference k child s ?w3 of
                        (Inl e, w4) \<Rightarrow> (Inl e, w4)
                      | (Inr _, w4) \<Rightarrow> (Inr child, w4)))"
  proof -
    have c: "(index \<ge> 0 \<and> index \<le> int (length (children (objs w this)))) = True"
      using idx by simp
    show ?thesis
      by (simp only: addChildAt_def c if_True step Let_def prod.case sum.case w3)
  qed
  have same: "\<forall>n\<in>set (subtree k w child). children (objs ?w3 n) = children (objs w n)"
  proof
    fix n assume n: "n \<in> set (subtree k w child)"
    with tree(2) have nt: "n \<noteq> this" by auto
    from w1 show "children (objs ?w3 n) = children (objs w n)"
    proof
      assume "w1 = w \<and> (\<forall>p. parent (objs w child) = Some p \<longrightarrow> child \<notin> set (children (objs w p)))"
      with nt show ?thesis by simp
    next
      assume "\<exists>p wa. parent (objs w child) = Some p \<and> child \<in> set (children (objs w p))
                    \<and> stage_frame w wa
                    \<and> w1 = detach p child (nat (indexOf (children (objs w p)) child)) wa"
      then obtain p wa where p: "child \<in> set (children (objs w p))"
        and wa: "stage_frame w wa"
        and e: "w1 = detach p child (nat (indexOf (children (objs w p)) child)) wa" by blast
      from no_cycle[OF tree(1) n] p have "n \<noteq> p" by blast
      with nt e stage_frame_children[OF wa] show ?thesis by simp
    qed
  qed
  have d3: "depth_le k ?w3 child" using depth_le_agree[OF same] tree(1) by simp
  show ?thesis
  proof (cases "stage (objs ?w3 this)")
    case None
    with unfold have "addChildAt k this child index w = (Inr child, ?w3)" by simp
    with w1 show ?thesis using stage_frame_refl by blast
  next
    case (Some s)
    from setStageReference_succeeds[OF d3, of s] obtain w4 where
      call: "setStageReference k child s ?w3 = (Inr (), w4)"
      by (cases "setStageReference k child s ?w3") simp
    with unfold Some have "addChildAt k this child index w = (Inr child, w4)" by simp
    with w1 setStageReference_frame[OF call] show ?thesis by blast
  qed
qed

section \<open>The bounds loop\<close>

lemma getBounds_loop_invisible:
  "\<forall>c\<in>set cs. \<not> visible (objs w c) \<Longrightarrow> getBounds_loop gbc cs acc w = (Inr acc, w)"
proof (induction cs)
  case Nil
  show ?case by simp
next
  case (Cons c cs)
  obtain minX minY maxX maxY cv where acc: "acc = (minX, minY, maxX, maxY, cv)"
    by (cases acc) auto
  from Cons show ?case by (simp add: acc)
qed

lemma num_eq_zero: "num_eq a (Num 0) \<longleftrightarrow> a = Num 0"
  by (cases a) auto

lemma deref_EMPTY: "deref w EMPTY = Rectangle_EMPTY"
  by (simp add: deref_def)

lemma getLocalBounds_world_sprite:
  "fst (getLocalBounds bounds (Suc 0) 0 world_sprite) = Inr (BoundsOf 0)"
  "deref (snd (getLocalBounds bounds (Suc 0) 0 world_sprite)) (BoundsOf 0)
     = \<lparr>rect_x = Num 0, rect_y = Num 0, rect_width = Num 10, rect_height = Num 5\<rparr>"
  by (simp_all add: getLocalBounds_def world_sprite_def mk_world_def blank_def Let_def
        displayObjectUpdateTransform_def deref_def num_gt_def num_sub_def upd_obj_def)

lemma getLocalBounds_world_empty:
  "fst (getLocalBounds bounds (Suc 0) 0 world_empty) = Inr EMPTY"
  by (simp add: getLocalBounds_def world_empty_def mk_world_def blank_def Let_def)

section \<open>Swapping\<close>

lemma getChildIndex_in:
  "child \<in> set (children (objs w this))
   \<Longrightarrow> getChildIndex this child w = Inr (indexOf (children (objs w this)) child)"
  using indexOf_in[of child "children (objs w this)"] by (simp add: getChildIndex_def Let_def)

lemma getChildIndex_notin:
  "child \<notin> set (children (objs w this)) \<Longrightarrow> getChildIndex this child w = Inl MembershipError"
  by (simp add: getChildIndex_def Let_def indexOf_notin)

lemma swapChildren_in:
  assumes "a \<noteq> b" "a \<in> set (children (objs w this))" "b \<in> set (children (objs w this))"
  shows "swapChildren this a b w
         = (Inr (), upd_obj this
              (\<lambda>d. d\<lparr>children := (children d)[nat (indexOf (children d) a) := b,
                                              nat (indexOf (children d) b) := a]\<rparr>) w)"
proof -
  let ?cs = "children (objs w this)"
  from indexOf_in[OF assms(2)] indexOf_in[OF assms(3)]
  have nn: "\<not> (indexOf ?cs a < 0 \<or> indexOf ?cs b < 0)" by auto
  show ?thesis
    unfolding swapChildren_def getChildIndex_in[OF assms(2)] getChildIndex_in[OF assms(3)]
    using assms(1) nn by (simp add: Let_def upd_obj_def)
qed

lemma swap_list_twice:
  assumes "distinct cs" "a \<noteq> b" "a \<in> set cs" "b \<in> set cs"
  defines "cs1 \<equiv> cs[nat (indexOf cs a) := b, nat (indexOf cs b) := a]"
  shows "a \<in> set cs1" "b \<in> set cs1"
    "cs1[nat (indexOf cs1 a) := b, nat (indexOf cs1 b) := a] = cs"
proof -
  let ?i = "nat (indexOf cs a)" and ?j = "nat (indexOf cs b)"
  from indexOf_in[OF assms(3)] have i: "?i < length cs" "cs ! ?i = a" by auto
  from indexOf_in[OF assms(4)] have j: "?j < length cs" "cs ! ?j = b" by auto
  from i j assms(2) have ij: "?i \<noteq> ?j" by auto
  have cs1: "cs1 = cs[?i := cs ! ?j, ?j := cs ! ?i]" by (simp add: cs1_def i j)
  have "distinct (cs[?i := cs ! ?j, ?j := cs ! ?i])"
    using i(1) j(1) assms(1) by (simp only: distinct_swap)
  then have d1: "distinct cs1" by (simp only: cs1)
  have len: "length cs1 = length cs" by (simp add: cs1_def)
  have n1: "cs1 ! ?j = a" using j by (simp add: cs1_def)
  have n2: "cs1 ! ?i = b" using i ij by (simp add: cs1_def)
  have ia: "indexOf cs1 a = int ?j" using indexOf_nth[OF d1, of ?j] j len n1 by simp
  have ib: "indexOf cs1 b = int ?i" using indexOf_nth[OF d1, of ?i] i len n2 by simp
  show "a \<in> set cs1" using n1 j len by (metis nth_mem)
  show "b \<in> set cs1" using n2 i len by (metis nth_mem)
  have "cs1[?j := b, ?i := a] = cs"
  proof (rule nth_equalityI)
    show "length (cs1[?j := b, ?i := a]) = length cs" by (simp add: len)
  next
    fix n assume "n < length (cs1[?j := b, ?i := a])"
    then have n: "n < length cs" by (simp add: len)
    show "cs1[?j := b, ?i := a] ! n = cs ! n"
      using n i j ij len by (auto simp: nth_list_update cs1_def)
  qed
  then show "cs1[nat (indexOf cs1 a) := b, nat (indexOf cs1 b) := a] = cs"
    by (simp only: ia ib nat_int)
qed

section \<open>The bounds of a container from those of its children\<close>

text \<open>
  The loop of \<open>getBounds\<close> folds one step over the bounds of the visible children;
  \<open>getBounds\<close> writes \<open>_bounds\<close> rectangles only and returns on a finite tree.
\<close>

lemma getBounds_loop_eq:
  "getBounds_loop gbc cs acc w
   = (case childBounds_list gbc cs w of
        (Inl e, w1) \<Rightarrow> (Inl e, w1)
      | (Inr rs, w1) \<Rightarrow> (Inr (foldl grow acc rs), w1))"
proof (induction cs arbitrary: acc w)
  case Nil
  show ?case by simp
next
  case (Cons c cs)
  obtain minX minY maxX maxY cv where acc: "acc = (minX, minY, maxX, maxY, cv)"
    by (cases acc) auto
  show ?case
  proof (cases "visible (objs w c)")
    case False
    then show ?thesis using Cons.IH[of acc w] by (simp add: acc)
  next
    case True
    obtain r1 w1 where call: "gbc c w = (r1, w1)" by (cases "gbc c w")
    show ?thesis
    proof (cases r1)
      case (Inl e)
      with True call show ?thesis by (simp add: acc)
    next
      case (Inr r)
      have "getBounds_loop gbc (c # cs) acc w = getBounds_loop gbc cs (grow acc (deref w1 r)) w1"
        using True call Inr by (simp add: acc grow_def Let_def)
      also have "\<dots> = (case childBounds_list gbc cs w1 of
                          (Inl e, w2) \<Rightarrow> (Inl e, w2)
                        | (Inr rs, w2) \<Rightarrow> (Inr (foldl grow (grow acc (deref w1 r)) rs), w2))"
        by (rule Cons.IH)
      also have "\<dots> = (case childBounds_list gbc (c # cs) w of
                          (Inl e, w1) \<Rightarrow> (Inl e, w1)
                        | (Inr rs, w1) \<Rightarrow> (Inr (foldl grow acc rs), w1))"
        using True call Inr by (simp split: prod.splits sum.splits)
      finally show ?thesis .
    qed
  qed
qed

lemma child_getBounds_fun:
  "(\<lambda>c w'. case cls (objs w' c) of
              DisplayObjectContainer \<Rightarrow> getBounds gb k c w'
            | OtherDisplayObject \<Rightarrow> (Inr (BoundsOf c), upd_obj c (\<lambda>d. d\<lparr>bounds := gb d\<rparr>) w'))
   = child_getBounds gb k"
  by (intro ext) (simp add: child_getBounds_def)

lemma getBounds_Suc:
  "getBounds gb (Suc k) this w =
     (if children (objs w this) = [] then (Inr EMPTY, w)
      else
        (case childBounds_list (child_getBounds gb k) (children (objs w this)) w of
           (Inl e, w1) \<Rightarrow> (Inl e, w1)
         | (Inr rs, w1) \<Rightarrow>
             (case foldl grow (Infinity, Infinity, NegInfinity, NegInfinity, False) rs of
                (minX, minY, maxX, maxY, childVisible) \<Rightarrow>
                  (if \<not> childVisible then (Inr EMPTY, w1)
                   else
                     (Inr (BoundsOf this),
                      upd_obj this
                        (\<lambda>d. d\<lparr>bounds := \<lparr>rect_x = minX, rect_y = minY,
                                           rect_width = num_sub maxX minX,
                                           rect_height = num_sub maxY minY\<rparr>\<rparr>) w1)))))"
  unfolding getBounds.simps child_getBounds_fun getBounds_loop_eq
  by (simp split: prod.splits sum.splits)

lemma bounds_frame_refl [simp]: "bounds_frame w w"
  by (simp add: bounds_frame_def)

lemma bounds_frame_trans: "bounds_frame w w1 \<Longrightarrow> bounds_frame w1 w2 \<Longrightarrow> bounds_frame w w2"
  unfolding bounds_frame_def
proof
  fix n
  assume a: "\<forall>n. objs w1 n = (objs w n)\<lparr>bounds := bounds (objs w1 n)\<rparr>"
    and b: "\<forall>n. objs w2 n = (objs w1 n)\<lparr>bounds := bounds (objs w2 n)\<rparr>"
  have "objs w2 n = (objs w1 n)\<lparr>bounds := bounds (objs w2 n)\<rparr>" using b by blast
  also have "objs w1 n = (objs w n)\<lparr>bounds := bounds (objs w1 n)\<rparr>" using a by blast
  finally show "objs w2 n = (objs w n)\<lparr>bounds := bounds (objs w2 n)\<rparr>" by simp
qed

lemma bounds_frame_upd: "bounds_frame w (upd_obj x (\<lambda>d. d\<lparr>bounds := f d\<rparr>) w)"
  by (simp add: bounds_frame_def)

lemma bounds_frame_fields:
  assumes "bounds_frame w w'"
  shows "children (objs w' n) = children (objs w n)"
    and "visible (objs w' n) = visible (objs w n)"
    and "cls (objs w' n) = cls (objs w n)"
proof -
  from assms have e: "objs w' n = (objs w n)\<lparr>bounds := bounds (objs w' n)\<rparr>"
    by (simp add: bounds_frame_def)
  have "children (objs w' n) = children ((objs w n)\<lparr>bounds := bounds (objs w' n)\<rparr>)"
    using e by simp
  then show "children (objs w' n) = children (objs w n)" by simp
  have "visible (objs w' n) = visible ((objs w n)\<lparr>bounds := bounds (objs w' n)\<rparr>)"
    using e by simp
  then show "visible (objs w' n) = visible (objs w n)" by simp
  have "cls (objs w' n) = cls ((objs w n)\<lparr>bounds := bounds (objs w' n)\<rparr>)"
    using e by simp
  then show "cls (objs w' n) = cls (objs w n)" by simp
qed

lemma bounds_frame_depth_le: "bounds_frame w w' \<Longrightarrow> depth_le k w' x = depth_le k w x"
  by (rule depth_le_agree) (simp add: bounds_frame_fields)

lemma childBounds_list_keeps:
  assumes "\<And>c v r v'. c \<in> set cs \<Longrightarrow> P v \<Longrightarrow> gbc c v = (r, v') \<Longrightarrow> P v'"
    and "P w" and "childBounds_list gbc cs w = (r, w')"
  shows "P w'"
  using assms
proof (induction cs arbitrary: w r)
  case Nil
  then show ?case by simp
next
  case (Cons c cs)
  show ?case
  proof (cases "visible (objs w c)")
    case False
    with Cons.prems(3) have "childBounds_list gbc cs w = (r, w')" by simp
    with Cons.IH[of w r] Cons.prems(1,2) show ?thesis by auto
  next
    case True
    obtain r1 w1 where call: "gbc c w = (r1, w1)" by (cases "gbc c w")
    have P1: "P w1" using Cons.prems(1)[of c w r1 w1] Cons.prems(2) call by simp
    show ?thesis
    proof (cases r1)
      case (Inl e)
      with Cons.prems(3) call True have "w' = w1" by simp
      with P1 show ?thesis by simp
    next
      case (Inr rr)
      obtain r2 w2 where rest: "childBounds_list gbc cs w1 = (r2, w2)"
        by (cases "childBounds_list gbc cs w1")
      with Cons.prems(3) call True Inr have "w' = w2" by (auto split: sum.splits)
      with Cons.IH[of w1 r2] Cons.prems(1) P1 rest show ?thesis by auto
    qed
  qed
qed

lemma getBounds_frame: "getBounds gb k x w = (r, w') \<Longrightarrow> bounds_frame w w'"
proof (induction k arbitrary: x w r w')
  case 0
  then show ?case by simp
next
  case (Suc k)
  let ?cs = "children (objs w x)"
  obtain r1 w1 where loop: "childBounds_list (child_getBounds gb k) ?cs w = (r1, w1)"
    by (cases "childBounds_list (child_getBounds gb k) ?cs w")
  have f1: "bounds_frame w w1"
  proof (rule childBounds_list_keeps[where P = "bounds_frame w", OF _ _ loop])
    show "bounds_frame w w" by simp
  next
    fix c v r v'
    assume v: "bounds_frame w v" and call: "child_getBounds gb k c v = (r, v')"
    have "bounds_frame v v'"
    proof (cases "cls (objs v c)")
      case DisplayObjectContainer
      with call have "getBounds gb k c v = (r, v')" by (simp add: child_getBounds_def)
      then show ?thesis by (rule Suc.IH)
    next
      case OtherDisplayObject
      with call have "v' = upd_obj c (\<lambda>d. d\<lparr>bounds := gb d\<rparr>) v"
        by (simp add: child_getBounds_def)
      then show ?thesis by (simp add: bounds_frame_upd)
    qed
    with v show "bounds_frame w v'" by (rule bounds_frame_trans)
  qed
  have "bounds_frame w1 w'"
    using Suc.prems loop unfolding getBounds_Suc
    by (auto simp: bounds_frame_upd split: if_splits sum.splits prod.splits)
  with f1 show ?case by (rule bounds_frame_trans)
qed

lemma childBounds_list_succeeds:
  assumes ok: "\<And>c v. c \<in> set cs \<Longrightarrow> bounds_frame w0 v \<Longrightarrow> \<exists>r. fst (gbc c v) = Inr r"
    and frames: "\<And>c v r v'. c \<in> set cs \<Longrightarrow> bounds_frame w0 v \<Longrightarrow> gbc c v = (r, v')
                   \<Longrightarrow> bounds_frame w0 v'"
    and w: "bounds_frame w0 w"
  shows "\<exists>rs. fst (childBounds_list gbc cs w) = Inr rs
           \<and> length rs = length (filter (\<lambda>c. visible (objs w0 c)) cs)"
  using assms
proof (induction cs arbitrary: w)
  case Nil
  show ?case by simp
next
  case (Cons c cs)
  have vis: "visible (objs w c) = visible (objs w0 c)"
    using Cons.prems(3) by (rule bounds_frame_fields)
  have ih: "\<exists>rs. fst (childBounds_list gbc cs v) = Inr rs
                \<and> length rs = length (filter (\<lambda>c. visible (objs w0 c)) cs)"
    if v: "bounds_frame w0 v" for v
  proof (rule Cons.IH[OF _ _ v])
    fix c' v'
    assume "c' \<in> set cs" "bounds_frame w0 v'"
    then show "\<exists>r. fst (gbc c' v') = Inr r" using Cons.prems(1)[of c' v'] by simp
  next
    fix c' v' r v''
    assume "c' \<in> set cs" "bounds_frame w0 v'" "gbc c' v' = (r, v'')"
    then show "bounds_frame w0 v''" using Cons.prems(2)[of c' v' r v''] by simp
  qed
  show ?case
  proof (cases "visible (objs w c)")
    case False
    from ih[OF Cons.prems(3)]
    obtain rs where "fst (childBounds_list gbc cs w) = Inr rs"
      "length rs = length (filter (\<lambda>c. visible (objs w0 c)) cs)" by auto
    with False vis show ?thesis by simp
  next
    case True
    from Cons.prems(1)[of c w] Cons.prems(3) obtain r w1 where call: "gbc c w = (Inr r, w1)"
      by (cases "gbc c w") auto
    have f1: "bounds_frame w0 w1" using Cons.prems(2)[of c w "Inr r" w1] Cons.prems(3) call by simp
    from ih[OF f1]
    obtain rs where rs: "fst (childBounds_list gbc cs w1) = Inr rs"
      "length rs = length (filter (\<lambda>c. visible (objs w0 c)) cs)" by auto
    then obtain w2 where "childBounds_list gbc cs w1 = (Inr rs, w2)"
      by (cases "childBounds_list gbc cs w1") simp
    with True vis call rs(2) show ?thesis by simp
  qed
qed

lemma getBounds_succeeds: "depth_le k w x \<Longrightarrow> \<exists>r. fst (getBounds gb k x w) = Inr r"
proof (induction k arbitrary: x w)
  case 0
  then show ?case by simp
next
  case (Suc k)
  let ?cs = "children (objs w x)"
  have "\<exists>rs. fst (childBounds_list (child_getBounds gb k) ?cs w) = Inr rs
           \<and> length rs = length (filter (\<lambda>c. visible (objs w c)) ?cs)"
  proof (rule childBounds_list_succeeds)
    show "bounds_frame w w" by simp
  next
    fix c v
    assume c: "c \<in> set ?cs" and v: "bounds_frame w v"
    from c Suc.prems have "depth_le k w c" by simp
    with v have "depth_le k v c" by (simp add: bounds_frame_depth_le)
    then have "\<exists>r. fst (getBounds gb k c v) = Inr r" by (rule Suc.IH)
    then show "\<exists>r. fst (child_getBounds gb k c v) = Inr r"
      by (cases "cls (objs v c)") (simp_all add: child_getBounds_def)
  next
    fix c v r v'
    assume v: "bounds_frame w v" and call: "child_getBounds gb k c v = (r, v')"
    have "bounds_frame v v'"
    proof (cases "cls (objs v c)")
      case DisplayObjectContainer
      with call have "getBounds gb k c v = (r, v')" by (simp add: child_getBounds_def)
      then show ?thesis by (rule getBounds_frame)
    next
      case OtherDisplayObject
      with call have "v' = upd_obj c (\<lambda>d. d\<lparr>bounds := gb d\<rparr>) v"
        by (simp add: child_getBounds_def)
      then show ?thesis by (simp add: bounds_frame_upd)
    qed
    with v show "bounds_frame w v'" by (rule bounds_frame_trans)
  qed
  then obtain rs w1 where "childBounds_list (child_getBounds gb k) ?cs w = (Inr rs, w1)"
    by (cases "childBounds_list (child_getBounds gb k) ?cs w") auto
  then show ?case unfolding getBounds_Suc by (simp split: prod.splits)
qed










section \<open>Local bounds\<close>

text \<open>
  \<open>updateTransform\<close> writes world transforms only; on a finite tree whose objects have
  their parents, \<open>getLocalBounds\<close> returns.
\<close>

lemma transform_frame_refl [simp]: "transform_frame w w"
  by (simp add: transform_frame_def)

lemma transform_frame_trans:
  "transform_frame w w1 \<Longrightarrow> transform_frame w1 w2 \<Longrightarrow> transform_frame w w2"
  unfolding transform_frame_def
proof
  fix n
  assume a: "\<forall>n. objs w1 n = (objs w n)\<lparr>worldTransform := worldTransform (objs w1 n)\<rparr>"
    and b: "\<forall>n. objs w2 n = (objs w1 n)\<lparr>worldTransform := worldTransform (objs w2 n)\<rparr>"
  have "objs w2 n = (objs w1 n)\<lparr>worldTransform := worldTransform (objs w2 n)\<rparr>" using b by blast
  also have "objs w1 n = (objs w n)\<lparr>worldTransform := worldTransform (objs w1 n)\<rparr>" using a by blast
  finally show "objs w2 n = (objs w n)\<lparr>worldTransform := worldTransform (objs w2 n)\<rparr>" by simp
qed

lemma transform_frame_upd: "transform_frame w (upd_obj x (\<lambda>d. d\<lparr>worldTransform := m\<rparr>) w)"
  by (simp add: transform_frame_def)

lemma transform_frame_fields:
  assumes "transform_frame w w'"
  shows "children (objs w' n) = children (objs w n)"
    and "parent (objs w' n) = parent (objs w n)"
proof -
  from assms have e: "objs w' n = (objs w n)\<lparr>worldTransform := worldTransform (objs w' n)\<rparr>"
    by (simp add: transform_frame_def)
  have "children (objs w' n) = children ((objs w n)\<lparr>worldTransform := worldTransform (objs w' n)\<rparr>)"
    using e by simp
  then show "children (objs w' n) = children (objs w n)" by simp
  have "parent (objs w' n) = parent ((objs w n)\<lparr>worldTransform := worldTransform (objs w' n)\<rparr>)"
    using e by simp
  then show "parent (objs w' n) = parent (objs w n)" by simp
qed

lemma transform_frame_depth_le: "transform_frame w w' \<Longrightarrow> depth_le k w' x = depth_le k w x"
  by (rule depth_le_agree) (simp add: transform_frame_fields)

lemma transform_frame_subtree: "transform_frame w w' \<Longrightarrow> subtree k w' x = subtree k w x"
  by (rule subtree_agree) (simp add: transform_frame_fields)

lemma displayObjectUpdateTransform_frame:
  "displayObjectUpdateTransform x w = (r, w') \<Longrightarrow> transform_frame w w'"
  by (auto simp: displayObjectUpdateTransform_def transform_frame_upd split: option.splits)

lemma updateTransform_frame: "updateTransform k x w = (r, w') \<Longrightarrow> transform_frame w w'"
proof (induction k arbitrary: x w r w')
  case 0
  then show ?case by simp
next
  case (Suc k)
  show ?case
  proof (cases "visible (objs w x)")
    case False
    with Suc.prems show ?thesis by simp
  next
    case True
    obtain r1 w1 where own: "displayObjectUpdateTransform x w = (r1, w1)"
      by (cases "displayObjectUpdateTransform x w")
    have f1: "transform_frame w w1" using own by (rule displayObjectUpdateTransform_frame)
    show ?thesis
    proof (cases "(\<exists>e. r1 = Inl e) \<or> cacheAsBitmap (objs w1 x)")
      case True
      with Suc.prems own \<open>visible (objs w x)\<close> have "w' = w1" by (auto split: sum.splits)
      with f1 show ?thesis by simp
    next
      case False
      with Suc.prems own \<open>visible (objs w x)\<close>
      have loop: "forEach (updateTransform k) (children (objs w1 x)) w1 = (r, w')"
        by (cases r1) auto
      show ?thesis
      proof (rule forEach_keeps[where P = "transform_frame w", OF _ f1 loop])
        fix c v r v'
        assume "transform_frame w v" and "updateTransform k c v = (r, v')"
        then show "transform_frame w v'" using Suc.IH transform_frame_trans by blast
      qed
    qed
  qed
qed

lemma updateTransform_succeeds:
  "depth_le k w x \<Longrightarrow> \<forall>n\<in>set (subtree k w x). parent (objs w n) \<noteq> None
   \<Longrightarrow> fst (updateTransform k x w) = Inr ()"
proof (induction k arbitrary: x w)
  case 0
  then show ?case by simp
next
  case (Suc k)
  show ?case
  proof (cases "visible (objs w x)")
    case False
    then show ?thesis by simp
  next
    case True
    from Suc.prems(2) obtain p where p: "parent (objs w x) = Some p" by auto
    let ?w1 = "upd_obj x (\<lambda>d. d\<lparr>worldTransform := Composed (worldTransform (objs w p)) x\<rparr>) w"
    have own: "displayObjectUpdateTransform x w = (Inr (), ?w1)"
      using p by (simp add: displayObjectUpdateTransform_def)
    have f1: "transform_frame w ?w1" by (rule transform_frame_upd)
    show ?thesis
    proof (cases "cacheAsBitmap (objs ?w1 x)")
      case cached: True
      with True own show ?thesis by (simp del: objs_upd_obj)
    next
      case False
      have "fst (forEach (updateTransform k) (children (objs ?w1 x)) ?w1) = Inr ()
            \<and> transform_frame w (snd (forEach (updateTransform k) (children (objs ?w1 x)) ?w1))"
      proof (rule forEach_succeeds[where P = "transform_frame w"])
        show "transform_frame w ?w1" by (rule f1)
      next
        fix c v
        assume c: "c \<in> set (children (objs ?w1 x))" and v: "transform_frame w v"
        from c have cx: "c \<in> set (children (objs w x))" by simp
        with Suc.prems(1) have "depth_le k w c" by simp
        then have d: "depth_le k v c" using v by (simp add: transform_frame_depth_le)
        have "\<forall>n\<in>set (subtree k v c). parent (objs v n) \<noteq> None"
        proof
          fix n assume "n \<in> set (subtree k v c)"
          then have "n \<in> set (subtree k w c)" using v by (simp add: transform_frame_subtree)
          with cx have "n \<in> set (subtree (Suc k) w x)" by auto
          with Suc.prems(2) have "parent (objs w n) \<noteq> None" by blast
          then show "parent (objs v n) \<noteq> None" using v by (simp add: transform_frame_fields)
        qed
        with d have 1: "fst (updateTransform k c v) = Inr ()" by (rule Suc.IH)
        have "transform_frame v (snd (updateTransform k c v))"
          using updateTransform_frame[of k c v] by (cases "updateTransform k c v") simp
        with v have "transform_frame w (snd (updateTransform k c v))" by (rule transform_frame_trans)
        with 1 show "fst (updateTransform k c v) = Inr ()
                     \<and> transform_frame w (snd (updateTransform k c v))" by simp
      qed
      with True own False show ?thesis by (simp del: objs_upd_obj)
    qed
  qed
qed

lemma getLocalBounds_returns:
  assumes d: "depth_le (Suc k) w this"
    and pa: "\<forall>n\<in>set (forest k w (children (objs w this))). parent (objs w n) \<noteq> None"
  shows "\<exists>r w1. getLocalBounds gb k this w = (Inr r, w1)"
proof -
  let ?w1 = "upd_obj this (\<lambda>d. d\<lparr>worldTransform := IDENTITY\<rparr>) w"
  have f1: "transform_frame w ?w1" by (rule transform_frame_upd)
  have cs: "children (objs ?w1 this) = children (objs w this)" by simp
  have "fst (forEach (updateTransform k) (children (objs ?w1 this)) ?w1) = Inr ()
        \<and> transform_frame w (snd (forEach (updateTransform k) (children (objs ?w1 this)) ?w1))"
  proof (rule forEach_succeeds[where P = "transform_frame w"])
    show "transform_frame w ?w1" by (rule f1)
  next
    fix c v
    assume c: "c \<in> set (children (objs ?w1 this))" and v: "transform_frame w v"
    from c have cx: "c \<in> set (children (objs w this))" by simp
    with d have "depth_le k w c" by simp
    then have dv: "depth_le k v c" using v by (simp add: transform_frame_depth_le)
    have "\<forall>n\<in>set (subtree k v c). parent (objs v n) \<noteq> None"
    proof
      fix n assume "n \<in> set (subtree k v c)"
      then have "n \<in> set (subtree k w c)" using v by (simp add: transform_frame_subtree)
      with cx have "n \<in> set (forest k w (children (objs w this)))" by (auto simp: forest_def)
      with pa have "parent (objs w n) \<noteq> None" by blast
      then show "parent (objs v n) \<noteq> None" using v by (simp add: transform_frame_fields)
    qed
    with dv have 1: "fst (updateTransform k c v) = Inr ()" by (rule updateTransform_succeeds)
    have "transform_frame v (snd (updateTransform k c v))"
      using updateTransform_frame[of k c v] by (cases "updateTransform k c v") simp
    with v have "transform_frame w (snd (updateTransform k c v))" by (rule transform_frame_trans)
    with 1 show "fst (updateTransform k c v) = Inr ()
                 \<and> transform_frame w (snd (updateTransform k c v))" by simp
  qed
  then obtain w2 where loop: "forEach (updateTransform k) (children (objs ?w1 this)) ?w1 = (Inr (), w2)"
    and f2: "transform_frame w w2"
    by (cases "forEach (updateTransform k) (children (objs ?w1 this)) ?w1") auto
  let ?w3 = "upd_obj this (\<lambda>d. d\<lparr>worldTransform := worldTransform (objs w this)\<rparr>) w2"
  have "transform_frame w2 ?w3" by (rule transform_frame_upd)
  with f2 have "transform_frame w ?w3" by (rule transform_frame_trans)
  with d have "depth_le (Suc k) ?w3 this" by (simp only: transform_frame_depth_le)
  from getBounds_succeeds[OF this, of gb] obtain r w4 where
    "getBounds gb (Suc k) this ?w3 = (Inr r, w4)"
    by (cases "getBounds gb (Suc k) this ?w3") auto
  with loop show ?thesis
    by (simp add: getLocalBounds_def Let_def del: getBounds.simps objs_upd_obj)
qed

lemma world_sprite_tree:
  "depth_le (Suc (Suc 0)) world_sprite 0"
  "\<forall>n\<in>set (forest (Suc 0) world_sprite (children (objs world_sprite 0))).
      parent (objs world_sprite n) \<noteq> None"
  by (simp_all add: world_sprite_def mk_world_def blank_def forest_def)

lemma world_empty_tree:
  "depth_le (Suc (Suc 0)) world_empty 0"
  "\<forall>n\<in>set (forest (Suc 0) world_empty (children (objs world_empty 0))).
      parent (objs world_empty n) \<noteq> None"
  by (simp_all add: world_empty_def mk_world_def blank_def forest_def)

section \<open>Removing a slice\<close>

lemma detachable_Nil [simp]: "detachable k w []"
  by (simp add: detachable_def)

lemma removeChildren_loop_effect:
  assumes "stage (objs w this) \<noteq> None \<longrightarrow> detachable k w removed"
  shows "\<exists>w'. removeChildren_loop k this removed w = (Inr (), w')
           \<and> (\<forall>n. children (objs w' n) = children (objs w n))
           \<and> (\<forall>n. parent (objs w' n) = (if n \<in> set removed then None else parent (objs w n)))"
  using assms
proof (induction removed arbitrary: w)
  case Nil
  show ?case by simp
next
  case (Cons child rest)
  let ?call = "if stage (objs w this) \<noteq> None then removeStageReference k child w else (Inr (), w)"
  have "\<exists>w1. ?call = (Inr (), w1) \<and> stage_frame w w1
          \<and> (stage (objs w1 this) \<noteq> None \<longrightarrow> detachable k w1 rest)"
  proof (cases "stage (objs w this) \<noteq> None")
    case False
    then show ?thesis by simp
  next
    case True
    with Cons.prems have d: "detachable k w (child # rest)" by simp
    from detachable_Cons[OF d]
    have c: "detachable k w [child]" and cs: "detachable k w rest"
      and disj: "set (subtree k w child) \<inter> set (forest k w rest) = {}" by auto
    from removeStageReference_succeeds[OF c] obtain w1 where
      call: "removeStageReference k child w = (Inr (), w1)"
      by (cases "removeStageReference k child w") simp
    have "detachable k w1 rest"
    proof (rule detachable_agree[OF _ cs])
      show "\<forall>n\<in>set (forest k w rest). children (objs w1 n) = children (objs w n)
             \<and> interactive (objs w1 n) = interactive (objs w n)
             \<and> (stage (objs w n) \<noteq> None \<longrightarrow> stage (objs w1 n) \<noteq> None)"
      proof
        fix n assume "n \<in> set (forest k w rest)"
        with disj have "n \<notin> set (subtree k w child)" by auto
        then have "objs w1 n = objs w n" using removeStageReference_outside[OF call] by simp
        then show "children (objs w1 n) = children (objs w n)
             \<and> interactive (objs w1 n) = interactive (objs w n)
             \<and> (stage (objs w n) \<noteq> None \<longrightarrow> stage (objs w1 n) \<noteq> None)" by simp
      qed
    qed
    with True call removeStageReference_frame[OF call] show ?thesis by simp
  qed
  then obtain w1 where call: "?call = (Inr (), w1)" and sf: "stage_frame w w1"
    and d1: "stage (objs w1 this) \<noteq> None \<longrightarrow> detachable k w1 rest" by blast
  let ?w2 = "upd_obj child (\<lambda>d. d\<lparr>parent := None\<rparr>) w1"
  have d2: "stage (objs ?w2 this) \<noteq> None \<longrightarrow> detachable k ?w2 rest"
  proof
    assume "stage (objs ?w2 this) \<noteq> None"
    then have "stage (objs w1 this) \<noteq> None" by (simp split: if_splits)
    with d1 have "detachable k w1 rest" by simp
    then show "detachable k ?w2 rest"
      by (rule detachable_agree[rotated]) simp
  qed
  from Cons.IH[OF d2] obtain w' where
    loop: "removeChildren_loop k this rest ?w2 = (Inr (), w')"
    and ch: "\<forall>n. children (objs w' n) = children (objs ?w2 n)"
    and pa: "\<forall>n. parent (objs w' n) = (if n \<in> set rest then None else parent (objs ?w2 n))"
    by blast
  have 1: "removeChildren_loop k this (child # rest) w = (Inr (), w')"
    using call loop by (simp del: removeStageReference.simps)
  have 2: "\<forall>n. children (objs w' n) = children (objs w n)"
    using ch stage_frame_children[OF sf] by simp
  have 3: "\<forall>n. parent (objs w' n) = (if n \<in> set (child # rest) then None else parent (objs w n))"
    using pa stage_frame_fields(1)[OF sf] by simp
  from 1 2 3 show ?case by blast
qed

lemma removeChildren_slice:
  assumes b: "0 \<le> b" and n: "0 < n"
    and det: "stage (objs w this) \<noteq> None
              \<longrightarrow> detachable k w (take (nat n) (drop (nat b) (children (objs w this))))"
  shows "\<exists>w'. removeChildren k this (Some b) (Some (b + n)) w
                = (Inr (take (nat n) (drop (nat b) (children (objs w this)))), w')
           \<and> children (objs w' this)
               = take (nat b) (children (objs w this)) @ drop (nat b + nat n) (children (objs w this))
           \<and> (\<forall>c\<in>set (take (nat n) (drop (nat b) (children (objs w this)))).
                 parent (objs w' c) = None)"
proof -
  let ?cs = "children (objs w this)"
  let ?removed = "take (nat n) (drop (nat b) ?cs)"
  let ?rest = "take (nat b) ?cs @ drop (nat b + nat n) ?cs"
  let ?w1 = "upd_obj this (\<lambda>d. d\<lparr>children := snd (array_splice b n [] (children d))\<rparr>) w"
  have sp: "array_splice b n [] ?cs = (?removed, ?rest)" using b n by (rule splice_range)
  have c1: "children (objs ?w1 this) = ?rest" by (simp add: sp)
  have d1: "stage (objs ?w1 this) \<noteq> None \<longrightarrow> detachable k ?w1 ?removed"
  proof
    assume "stage (objs ?w1 this) \<noteq> None"
    then have "stage (objs w this) \<noteq> None" by simp
    with det have d: "detachable k w ?removed" by simp
    have notin: "this \<notin> set (forest k w ?removed)"
    proof
      assume "this \<in> set (forest k w ?removed)"
      then obtain c where c: "c \<in> set ?removed" and t: "this \<in> set (subtree k w c)"
        by (auto simp: forest_def)
      from c d have dc: "depth_le k w c" by (simp add: detachable_def)
      from c have "c \<in> set ?cs" by (meson in_set_dropD in_set_takeD)
      with no_cycle[OF dc t] show False by simp
    qed
    show "detachable k ?w1 ?removed"
    proof (rule detachable_agree[OF _ d])
      show "\<forall>m\<in>set (forest k w ?removed). children (objs ?w1 m) = children (objs w m)
             \<and> interactive (objs ?w1 m) = interactive (objs w m)
             \<and> (stage (objs w m) \<noteq> None \<longrightarrow> stage (objs ?w1 m) \<noteq> None)"
        using notin by auto
    qed
  qed
  from removeChildren_loop_effect[OF d1] obtain w' where
    loop: "removeChildren_loop k this ?removed ?w1 = (Inr (), w')"
    and ch: "\<forall>m. children (objs w' m) = children (objs ?w1 m)"
    and pa: "\<forall>m. parent (objs w' m) = (if m \<in> set ?removed then None else parent (objs ?w1 m))"
    by blast
  have cond: "(0 < b + n - b \<and> b + n - b \<le> b + n) = True" using b n by simp
  have "removeChildren k this (Some b) (Some (b + n)) w = (Inr ?removed, w')"
    unfolding removeChildren_def Let_def option.case cond if_True
    by (simp add: sp loop)
  moreover have "children (objs w' this) = ?rest" using ch c1 by simp
  moreover have "\<forall>c\<in>set ?removed. parent (objs w' c) = None" using pa by simp
  ultimately show ?thesis by blast
qed

lemma removeChildren_defaults:
  "removeChildren k this beginIndex endIndex w
   = removeChildren k this
       (Some (case beginIndex of None \<Rightarrow> 0 | Some i \<Rightarrow> i))
       (Some (case endIndex of None \<Rightarrow> int (length (children (objs w this))) | Some i \<Rightarrow> i)) w"
  by (simp add: removeChildren_def)

lemma world_three_0:
  "children (objs world_three 0) = [1, 2, 3]" "stage (objs world_three 0) = None"
  by (simp_all add: world_three_def mk_world_def blank_def)

lemma world_empty_0:
  "children (objs world_empty n) = []" "stage (objs world_empty n) = None"
  by (simp_all add: world_empty_def mk_world_def blank_def)

section \<open>An interactive object without a stage\<close>

lemma removeStageReference_keeps_None:
  "removeStageReference k x w = (r, w') \<Longrightarrow> stage (objs w n) = None \<Longrightarrow> stage (objs w' n) = None"
proof (induction k arbitrary: x w r w')
  case 0
  then show ?case by simp
next
  case (Suc k)
  obtain r1 w1 where loop: "forEach (removeStageReference k) (children (objs w x)) w = (r1, w1)"
    by (cases "forEach (removeStageReference k) (children (objs w x)) w")
  have "stage (objs w1 n) = None"
  proof (rule forEach_keeps[where P = "\<lambda>v. stage (objs v n) = None", OF _ _ loop])
    show "stage (objs w n) = None" by (rule Suc.prems(2))
  next
    fix c v r v'
    assume "stage (objs v n) = None" and "removeStageReference k c v = (r, v')"
    then show "stage (objs v' n) = None" using Suc.IH by blast
  qed
  with removeStageReference_Suc_cases[OF Suc.prems(1) loop] show ?case by auto
qed

lemma removeStageReference_null_stage:
  assumes "interactive (objs w x)" and "stage (objs w x) = None"
    and "fst (forEach (removeStageReference k) (children (objs w x)) w) = Inr ()"
  shows "fst (removeStageReference (Suc k) x w) = Inl TypeError"
proof -
  obtain w1 where loop: "forEach (removeStageReference k) (children (objs w x)) w = (Inr (), w1)"
    using assms(3) by (cases "forEach (removeStageReference k) (children (objs w x)) w") simp
  let ?P = "\<lambda>v. stage_frame w v \<and> stage (objs v x) = None"
  have "?P w1"
  proof (rule forEach_keeps[where P = ?P, OF _ _ loop])
    show "?P w" using assms(2) by simp
  next
    fix c v r v'
    assume v: "?P v" and call: "removeStageReference k c v = (r, v')"
    from v removeStageReference_frame[OF call] have "stage_frame w v'"
      using stage_frame_trans by blast
    moreover from v call have "stage (objs v' x) = None"
      using removeStageReference_keeps_None by blast
    ultimately show "?P v'" by simp
  qed
  then have "interactive (objs w1 x)" "stage (objs w1 x) = None"
    using assms(1) stage_frame_fields(2)[of w w1 x] by auto
  with loop show ?thesis by simp
qed

lemma world_stale_fields:
  "children (objs world_stale 0) = [Suc 0]" "stage (objs world_stale 0) = Some 9"
  "interactive (objs world_stale (Suc 0))" "stage (objs world_stale (Suc 0)) = None"
  "children (objs world_stale (Suc 0)) = []" "parent (objs world_stale (Suc 0)) = Some 0"
  by (simp_all add: world_stale_def world_attached_def mk_world_def blank_def addChildAt_def
        array_splice_def upd_obj_def Let_def)

lemma world_live_fields:
  "children (objs world_live 0) = [Suc 0]" "stage (objs world_live 0) = Some 9"
  "interactive (objs world_live (Suc 0))" "stage (objs world_live (Suc 0)) = Some 9"
  "children (objs world_live (Suc 0)) = []"
  by (simp_all add: world_live_def mk_world_def blank_def)

lemma world_attached_fields:
  "children (objs world_attached (Suc 0)) = []" "stage (objs world_attached (Suc 0)) = None"
  "interactive (objs world_attached (Suc 0))"
  by (simp_all add: world_attached_def mk_world_def blank_def)

lemma removeChildren_no_TypeError:
  assumes "stage (objs w this) \<noteq> None
           \<longrightarrow> detachable k w (take (nat (e - b)) (drop (nat b) (children (objs w this))))"
  shows "fst (removeChildren k this (Some b) (Some e) w) \<noteq> Inl TypeError"
proof (cases "0 < e - b \<and> e - b \<le> e")
  case True
  then have b0: "0 \<le> b" and n0: "0 < e - b" by auto
  from removeChildren_slice[OF b0 n0 assms] show ?thesis by auto
next
  case False
  then show ?thesis by (auto simp: removeChildren_def Let_def)
qed

section \<open>Keeping the single-parent invariant\<close>

lemma single_parent_parent:
  "single_parent w \<Longrightarrow> n \<in> set (children (objs w p)) \<Longrightarrow> parent (objs w n) = Some p"
  by (simp add: single_parent_def)

lemma single_parent_listed:
  "single_parent w \<Longrightarrow> parent (objs w n) = Some p \<Longrightarrow> n \<in> set (children (objs w p))"
  by (simp add: single_parent_def)

lemma single_parent_distinct: "single_parent w \<Longrightarrow> distinct (children (objs w p))"
  by (simp add: single_parent_def)

lemma single_parent_stage_frame: "stage_frame w w' \<Longrightarrow> single_parent w' = single_parent w"
  by (simp add: single_parent_def stage_frame_children stage_frame_fields)

lemma set_remove_nth:
  assumes "distinct cs" "i < length cs"
  shows "set (take i cs @ drop (Suc i) cs) = set cs - {cs ! i}"
    and "distinct (take i cs @ drop (Suc i) cs)"
proof -
  have cs: "cs = take i cs @ (cs ! i) # drop (Suc i) cs"
    using assms(2) by (simp add: id_take_nth_drop)
  have d: "distinct (take i cs @ (cs ! i) # drop (Suc i) cs)" using assms(1) cs by simp
  then show "distinct (take i cs @ drop (Suc i) cs)" by simp
  have "set cs = set (take i cs @ (cs ! i) # drop (Suc i) cs)" using cs by simp
  also have "\<dots> = insert (cs ! i) (set (take i cs @ drop (Suc i) cs))" by simp
  finally have s: "set cs = insert (cs ! i) (set (take i cs @ drop (Suc i) cs))" .
  from d have "cs ! i \<notin> set (take i cs @ drop (Suc i) cs)" by simp
  with s show "set (take i cs @ drop (Suc i) cs) = set cs - {cs ! i}" by auto
qed

lemma single_parent_detach:
  assumes inv: "single_parent w" and i: "i < length (children (objs w p))"
    and c: "children (objs w p) ! i = child"
  shows "single_parent (detach p child i w)"
proof -
  let ?cs = "children (objs w p)"
  from inv have d: "distinct ?cs" by (simp add: single_parent_def)
  have s: "set (take i ?cs @ drop (Suc i) ?cs) = set ?cs - {child}"
    using set_remove_nth(1)[OF d i] c by simp
  have d': "distinct (take i ?cs @ drop (Suc i) ?cs)" using set_remove_nth(2)[OF d i] .
  from i c have cin: "child \<in> set ?cs" by (metis nth_mem)
  with inv have pc: "parent (objs w child) = Some p" by (simp add: single_parent_def)
  have only: "\<And>q. child \<in> set (children (objs w q)) \<Longrightarrow> q = p"
    using single_parent_parent[OF inv] pc by fastforce
  show ?thesis
    unfolding single_parent_def
  proof (intro conjI allI)
    fix n q
    show "parent (objs (detach p child i w) n) = Some q
          \<longleftrightarrow> n \<in> set (children (objs (detach p child i w) q))"
    proof (cases "n = child")
      case True
      then show ?thesis using s only by (auto simp del: set_append)
    next
      case False
      then show ?thesis using s inv by (auto simp: single_parent_def simp del: set_append)
    qed
  next
    fix q
    show "distinct (children (objs (detach p child i w) q))"
      using d' inv by (simp add: single_parent_def del: distinct_append)
  qed
qed

lemma single_parent_attach:
  assumes inv: "single_parent w" and np: "parent (objs w child) = None"
  shows "single_parent (attach this child i w)"
proof -
  let ?cs = "children (objs w this)"
  have nowhere: "\<And>q. child \<notin> set (children (objs w q))"
    using single_parent_parent[OF inv] np by fastforce
  from inv have d: "distinct ?cs" by (simp add: single_parent_def)
  have s: "set (take i ?cs @ [child] @ drop i ?cs) = insert child (set ?cs)"
  proof -
    have "set (take i ?cs) \<union> set (drop i ?cs) = set ?cs"
      by (metis append_take_drop_id set_append)
    then show ?thesis by auto
  qed
  have d': "distinct (take i ?cs @ [child] @ drop i ?cs)"
  proof -
    have 1: "distinct (take i ?cs)" "distinct (drop i ?cs)" using d by simp_all
    have 2: "set (take i ?cs) \<inter> set (drop i ?cs) = {}"
      using d by (metis append_take_drop_id distinct_append)
    have 3: "child \<notin> set (take i ?cs)" using nowhere[of this] by (meson in_set_takeD)
    have 4: "child \<notin> set (drop i ?cs)" using nowhere[of this] by (meson in_set_dropD)
    from 1 2 3 4 show ?thesis by auto
  qed
  show ?thesis
    unfolding single_parent_def
  proof (intro conjI allI)
    fix n q
    show "parent (objs (attach this child i w) n) = Some q
          \<longleftrightarrow> n \<in> set (children (objs (attach this child i w) q))"
    proof (cases "n = child")
      case True
      then show ?thesis using s nowhere by (auto simp del: set_append)
    next
      case False
      then show ?thesis using s inv by (auto simp: single_parent_def simp del: set_append)
    qed
  next
    fix q
    show "distinct (children (objs (attach this child i w) q))"
      using d' inv by (simp add: single_parent_def del: distinct_append)
  qed
qed

lemma single_parent_permute:
  assumes inv: "single_parent w" and s: "set cs' = set (children (objs w this))"
    and d: "distinct cs'"
  shows "single_parent (upd_obj this (\<lambda>d. d\<lparr>children := cs'\<rparr>) w)"
  using assms by (auto simp: single_parent_def)

lemma removeChildAt_keeps_single_parent:
  assumes inv: "single_parent w"
  shows "single_parent (snd (removeChildAt k p i w))"
proof -
  obtain r w' where call: "removeChildAt k p i w = (r, w')" by (cases "removeChildAt k p i w")
  let ?cs = "children (objs w p)"
  from removeChildAt_effect[OF call]
  consider "w' = w" | "stage_frame w w'"
    | wa where "0 \<le> i" "i < int (length ?cs)" "stage_frame w wa"
        "w' = detach p (?cs ! nat i) (nat i) wa"
    by blast
  then have "single_parent w'"
  proof cases
    case 1
    with inv show ?thesis by simp
  next
    case 2
    with inv show ?thesis by (simp add: single_parent_stage_frame)
  next
    case 3
    have a: "single_parent wa" using inv 3(3) by (simp add: single_parent_stage_frame)
    have cs: "children (objs wa p) = ?cs" using 3(3) by (rule stage_frame_children)
    have "single_parent (detach p (?cs ! nat i) (nat i) wa)"
      by (rule single_parent_detach[OF a]) (use 3(1,2) cs in simp_all)
    with 3(4) show ?thesis by simp
  qed
  with call show ?thesis by simp
qed

lemma removeChild_keeps_single_parent:
  assumes inv: "single_parent w"
  shows "single_parent (snd (removeChild k p child w))"
proof -
  obtain r w' where call: "removeChild k p child w = (r, w')" by (cases "removeChild k p child w")
  let ?cs = "children (objs w p)"
  from removeChild_effect[OF call]
  consider "w' = w" | "stage_frame w w'"
    | wa where "child \<in> set ?cs" "stage_frame w wa"
        "w' = detach p child (nat (indexOf ?cs child)) wa"
    by blast
  then have "single_parent w'"
  proof cases
    case 1
    with inv show ?thesis by simp
  next
    case 2
    with inv show ?thesis by (simp add: single_parent_stage_frame)
  next
    case 3
    have a: "single_parent wa" using inv 3(2) by (simp add: single_parent_stage_frame)
    have cs: "children (objs wa p) = ?cs" using 3(2) by (rule stage_frame_children)
    from indexOf_in[OF 3(1)] have "nat (indexOf ?cs child) < length ?cs"
      "?cs ! nat (indexOf ?cs child) = child" by auto
    then have "single_parent (detach p child (nat (indexOf ?cs child)) wa)"
      using single_parent_detach[OF a, of "nat (indexOf ?cs child)" p child] cs by simp
    with 3(3) show ?thesis by simp
  qed
  with call show ?thesis by simp
qed

lemma addChildAt_effect:
  assumes "addChildAt k this child index w = (r, w')"
  shows "w' = w \<or> stage_frame w w'
       \<or> (0 \<le> index \<and> (\<exists>w1. stage_frame (attach this child (nat index) w1) w' \<and>
            ((w1 = w \<and> (\<forall>p. parent (objs w child) = Some p \<longrightarrow> child \<notin> set (children (objs w p))))
             \<or> (\<exists>p wa. parent (objs w child) = Some p \<and> child \<in> set (children (objs w p))
                   \<and> stage_frame w wa
                   \<and> w1 = detach p child (nat (indexOf (children (objs w p)) child)) wa))))"
proof (cases "index \<ge> 0 \<and> index \<le> int (length (children (objs w this)))")
  case False
  with assms show ?thesis by (simp add: addChildAt_def)
next
  case True
  then have idx: "0 \<le> index" by simp
  let ?step = "case parent (objs w child) of None \<Rightarrow> (Inr None, w)
               | Some p \<Rightarrow> removeChild k p child w"
  obtain r1 w1 where step: "?step = (r1, w1)" by (cases ?step)
  let ?D = "\<lambda>w1. (w1 = w \<and> (\<forall>p. parent (objs w child) = Some p \<longrightarrow> child \<notin> set (children (objs w p))))
             \<or> (\<exists>p wa. parent (objs w child) = Some p \<and> child \<in> set (children (objs w p))
                   \<and> stage_frame w wa
                   \<and> w1 = detach p child (nat (indexOf (children (objs w p)) child)) wa)"
  have s1: "(\<exists>e. r1 = Inl e \<and> stage_frame w w1) \<or> ((\<exists>v. r1 = Inr v) \<and> ?D w1)"
  proof (cases "parent (objs w child)")
    case None
    with step show ?thesis by auto
  next
    case (Some p)
    with step have "removeChild k p child w = (r1, w1)" by simp
    from removeChild_effect[OF this] Some show ?thesis by auto
  qed
  show ?thesis
  proof (cases r1)
    case (Inl e)
    with s1 have "stage_frame w w1" by auto
    moreover from assms True step Inl have "w' = w1" by (simp add: addChildAt_def)
    ultimately show ?thesis by simp
  next
    case (Inr v)
    with s1 have D: "?D w1" by auto
    let ?w2 = "upd_obj child (\<lambda>d. d\<lparr>parent := Some this\<rparr>) w1"
    let ?w3 = "attach this child (nat index) w1"
    have w3: "upd_obj this (\<lambda>d. d\<lparr>children := snd (array_splice index 0 [child] (children d))\<rparr>) ?w2 = ?w3"
      unfolding attach_def by (rule upd_obj_cong) (simp only: splice_insert[OF idx])
    have c: "(index \<ge> 0 \<and> index \<le> int (length (children (objs w this)))) = True"
      using True by simp
    have unfold: "addChildAt k this child index w
      = (case stage (objs ?w3 this) of
           None \<Rightarrow> (Inr child, ?w3)
         | Some s \<Rightarrow> (case setStageReference k child s ?w3 of
                        (Inl e, w4) \<Rightarrow> (Inl e, w4)
                      | (Inr _, w4) \<Rightarrow> (Inr child, w4)))"
      by (simp only: addChildAt_def c if_True step Inr Let_def prod.case sum.case w3)
    have "stage_frame ?w3 w'"
    proof (cases "stage (objs ?w3 this)")
      case None
      with unfold assms have "w' = ?w3" by simp
      then show ?thesis by simp
    next
      case (Some s)
      obtain r4 w4 where call: "setStageReference k child s ?w3 = (r4, w4)"
        by (cases "setStageReference k child s ?w3")
      with unfold assms Some have "w' = w4" by (auto split: sum.splits)
      with setStageReference_frame[OF call] show ?thesis by simp
    qed
    with idx D show ?thesis by blast
  qed
qed

lemma addChildAt_keeps_single_parent:
  assumes inv: "single_parent w"
  shows "single_parent (snd (addChildAt k this child index w))"
proof -
  obtain r w' where call: "addChildAt k this child index w = (r, w')"
    by (cases "addChildAt k this child index w")
  from addChildAt_effect[OF call]
  consider "w' = w" | "stage_frame w w'"
    | w1 where "stage_frame (attach this child (nat index) w1) w'" "w1 = w"
        "\<forall>p. parent (objs w child) = Some p \<longrightarrow> child \<notin> set (children (objs w p))"
    | w1 p wa where "stage_frame (attach this child (nat index) w1) w'"
        "child \<in> set (children (objs w p))" "stage_frame w wa"
        "w1 = detach p child (nat (indexOf (children (objs w p)) child)) wa"
    by blast
  then have "single_parent w'"
  proof cases
    case 1
    with inv show ?thesis by simp
  next
    case 2
    with inv show ?thesis by (simp add: single_parent_stage_frame)
  next
    case 3
    have "parent (objs w child) = None"
    proof (cases "parent (objs w child)")
      case None
      then show ?thesis .
    next
      case (Some p)
      with single_parent_listed[OF inv] 3(3) show ?thesis by blast
    qed
    then have "single_parent (attach this child (nat index) w)"
      using inv by (intro single_parent_attach)
    with 3(1,2) show ?thesis by (simp add: single_parent_stage_frame)
  next
    case 4
    let ?cs = "children (objs w p)"
    have a: "single_parent wa" using inv 4(3) by (simp add: single_parent_stage_frame)
    have cs: "children (objs wa p) = ?cs" using 4(3) by (rule stage_frame_children)
    from indexOf_in[OF 4(2)] have "nat (indexOf ?cs child) < length ?cs"
      "?cs ! nat (indexOf ?cs child) = child" by auto
    then have "single_parent (detach p child (nat (indexOf ?cs child)) wa)"
      using single_parent_detach[OF a, of "nat (indexOf ?cs child)" p child] cs by simp
    then have b: "single_parent w1" using 4(4) by simp
    have "parent (objs w1 child) = None" using 4(4) by simp
    with b have "single_parent (attach this child (nat index) w1)"
      by (intro single_parent_attach)
    with 4(1) show ?thesis by (simp add: single_parent_stage_frame)
  qed
  with call show ?thesis by simp
qed

lemma upd_obj_twice: "upd_obj r f (upd_obj r g w) = upd_obj r (\<lambda>d. f (g d)) w"
  by (simp add: upd_obj_def)

lemma swapChildren_keeps_single_parent:
  assumes inv: "single_parent w"
  shows "single_parent (snd (swapChildren this a b w))"
proof (cases "a \<noteq> b \<and> a \<in> set (children (objs w this)) \<and> b \<in> set (children (objs w this))")
  case False
  have "snd (swapChildren this a b w) = w"
  proof (cases "a \<in> set (children (objs w this))")
    case True
    with False show ?thesis
      by (auto simp: swapChildren_def getChildIndex_notin getChildIndex_in)
  next
    case False
    then show ?thesis by (simp add: swapChildren_def getChildIndex_notin)
  qed
  with inv show ?thesis by simp
next
  case True
  let ?cs = "children (objs w this)"
  let ?i = "nat (indexOf ?cs a)" and ?j = "nat (indexOf ?cs b)"
  from True indexOf_in[of a ?cs] have i: "?i < length ?cs" "?cs ! ?i = a" by auto
  from True indexOf_in[of b ?cs] have j: "?j < length ?cs" "?cs ! ?j = b" by auto
  let ?cs' = "?cs[?i := ?cs ! ?j, ?j := ?cs ! ?i]"
  have d: "distinct ?cs'"
    using i(1) j(1) single_parent_distinct[OF inv, of this] by (simp only: distinct_swap)
  have s: "set ?cs' = set ?cs" using i(1) j(1) by (simp only: set_swap)
  have "swapChildren this a b w
         = (Inr (), upd_obj this
              (\<lambda>d. d\<lparr>children := (children d)[nat (indexOf (children d) a) := b,
                                              nat (indexOf (children d) b) := a]\<rparr>) w)"
    using True by (intro swapChildren_in) simp_all
  also have "upd_obj this
              (\<lambda>d. d\<lparr>children := (children d)[nat (indexOf (children d) a) := b,
                                              nat (indexOf (children d) b) := a]\<rparr>) w
             = upd_obj this (\<lambda>d. d\<lparr>children := ?cs'\<rparr>) w"
    by (rule upd_obj_cong) (simp add: i j)
  finally have "snd (swapChildren this a b w) = upd_obj this (\<lambda>d. d\<lparr>children := ?cs'\<rparr>) w"
    by simp
  with single_parent_permute[OF inv s d] show ?thesis by simp
qed

lemma setChildIndex_keeps_single_parent:
  assumes inv: "single_parent w"
  shows "single_parent (snd (setChildIndex this child index w))"
proof (cases "0 \<le> index \<and> index < int (length (children (objs w this)))
              \<and> child \<in> set (children (objs w this))")
  case False
  then have "snd (setChildIndex this child index w) = w"
    by (auto simp: setChildIndex_def getChildIndex_notin)
  with inv show ?thesis by simp
next
  case True
  let ?cs = "children (objs w this)"
  let ?ci = "indexOf ?cs child"
  from True indexOf_in[of child ?cs] have ci: "0 \<le> ?ci" "?ci < int (length ?cs)"
    "?cs ! nat ?ci = child" by auto
  define cs1 where "cs1 = take (nat ?ci) ?cs @ drop (Suc (nat ?ci)) ?cs"
  define cs2 where "cs2 = take (nat index) cs1 @ [child] @ drop (nat index) cs1"
  have dcs: "distinct ?cs" using inv by (rule single_parent_distinct)
  have lt: "nat ?ci < length ?cs" using ci by simp
  have s1: "set cs1 = set ?cs - {child}"
    unfolding cs1_def using set_remove_nth(1)[OF dcs lt] ci(3) by simp
  have d1: "distinct cs1" unfolding cs1_def using set_remove_nth(2)[OF dcs lt] .
  have u: "set (take (nat index) cs1) \<union> set (drop (nat index) cs1) = set cs1"
    by (metis append_take_drop_id set_append)
  have s2: "set cs2 = set ?cs" unfolding cs2_def using u s1 True by auto
  have d2: "distinct cs2"
  proof -
    have 1: "distinct (take (nat index) cs1)" "distinct (drop (nat index) cs1)"
      using d1 by simp_all
    have 2: "set (take (nat index) cs1) \<inter> set (drop (nat index) cs1) = {}"
      using d1 by (metis append_take_drop_id distinct_append)
    have "child \<notin> set cs1" using s1 by simp
    then have 3: "child \<notin> set (take (nat index) cs1)" "child \<notin> set (drop (nat index) cs1)"
      using u by blast+
    from 1 2 3 show ?thesis unfolding cs2_def by auto
  qed
  have g: "getChildIndex this child w = Inr ?ci" using True by (simp add: getChildIndex_in)
  have c: "(index < 0 \<or> int (length ?cs) \<le> index) = False" using True by auto
  have "snd (setChildIndex this child index w)
        = upd_obj this (\<lambda>d. d\<lparr>children := snd (array_splice index 0 [child] (children d))\<rparr>)
            (upd_obj this (\<lambda>d. d\<lparr>children := snd (array_splice ?ci 1 [] (children d))\<rparr>) w)"
    by (simp only: setChildIndex_def c if_False g sum.case Let_def snd_conv)
  also have "\<dots> = upd_obj this (\<lambda>d. d\<lparr>children := cs2\<rparr>) w"
    unfolding upd_obj_twice
  proof (rule upd_obj_cong)
    have "snd (array_splice ?ci 1 [] ?cs) = cs1"
      unfolding cs1_def by (rule splice_remove[OF ci(1,2)])
    moreover have "snd (array_splice index 0 [child] cs1) = cs2"
      unfolding cs2_def using True by (intro splice_insert) simp
    ultimately show "(objs w this)\<lparr>children := snd (array_splice ?ci 1 [] (children (objs w this)))\<rparr>
            \<lparr>children := snd (array_splice index 0 [child]
                 (children ((objs w this)\<lparr>children := snd (array_splice ?ci 1 [] (children (objs w this)))\<rparr>)))\<rparr>
          = (objs w this)\<lparr>children := cs2\<rparr>"
      by simp
  qed
  finally show ?thesis using single_parent_permute[OF inv s2 d2] by simp
qed

lemma removeChildren_loop_frame:
  "removeChildren_loop k this removed w = (Inr u, w')
   \<Longrightarrow> (\<forall>n. children (objs w' n) = children (objs w n))
     \<and> (\<forall>n. parent (objs w' n) = (if n \<in> set removed then None else parent (objs w n)))"
proof (induction removed arbitrary: w)
  case Nil
  then show ?case by simp
next
  case (Cons child rest)
  let ?call = "if stage (objs w this) \<noteq> None then removeStageReference k child w else (Inr (), w)"
  obtain r1 w1 where call: "?call = (r1, w1)" by (cases ?call)
  have sf: "stage_frame w w1" using call removeStageReference_frame by (auto split: if_splits)
  let ?w2 = "upd_obj child (\<lambda>d. d\<lparr>parent := None\<rparr>) w1"
  have rest: "removeChildren_loop k this rest ?w2 = (Inr u, w')"
  proof (cases r1)
    case (Inl e)
    with Cons.prems call show ?thesis by (simp del: removeStageReference.simps)
  next
    case (Inr v)
    with Cons.prems call show ?thesis by (simp del: removeStageReference.simps)
  qed
  from Cons.IH[OF rest]
  have ch: "\<forall>n. children (objs w' n) = children (objs ?w2 n)"
    and pa: "\<forall>n. parent (objs w' n) = (if n \<in> set rest then None else parent (objs ?w2 n))"
    by auto
  have 2: "\<forall>n. children (objs w' n) = children (objs w n)"
    using ch stage_frame_children[OF sf] by simp
  have 3: "\<forall>n. parent (objs w' n) = (if n \<in> set (child # rest) then None else parent (objs w n))"
    using pa stage_frame_fields(1)[OF sf] by simp
  from 2 3 show ?case by blast
qed

lemma forEach_results:
  assumes "\<And>c v. fst (f c v) \<in> S" and "Inr () \<in> S"
  shows "fst (forEach f cs w) \<in> S"
proof (induction cs arbitrary: w)
  case Nil
  show ?case using assms(2) by simp
next
  case (Cons c cs)
  obtain r1 w1 where call: "f c w = (r1, w1)" by (cases "f c w")
  show ?case
  proof (cases r1)
    case (Inl e)
    with call assms(1)[of c w] show ?thesis by simp
  next
    case (Inr u)
    with call Cons.IH[of w1] show ?thesis by simp
  qed
qed

lemma removeStageReference_errors:
  "fst (removeStageReference k x w) \<in> {Inr (), Inl TypeError, Inl OutOfFuel}"
proof (induction k arbitrary: x w)
  case 0
  show ?case by simp
next
  case (Suc k)
  obtain r1 w1 where loop: "forEach (removeStageReference k) (children (objs w x)) w = (r1, w1)"
    by (cases "forEach (removeStageReference k) (children (objs w x)) w")
  have "fst (forEach (removeStageReference k) (children (objs w x)) w)
          \<in> {Inr (), Inl TypeError, Inl OutOfFuel}"
    by (rule forEach_results) (use Suc.IH in auto)
  with loop have r1: "r1 \<in> {Inr (), Inl TypeError, Inl OutOfFuel}" by simp
  show ?case
  proof (cases r1)
    case (Inl e)
    with loop r1 show ?thesis by auto
  next
    case (Inr u)
    with loop show ?thesis by (auto split: option.splits)
  qed
qed

lemma removeChildren_loop_errors:
  "fst (removeChildren_loop k this removed w) \<in> {Inr (), Inl TypeError, Inl OutOfFuel}"
proof (induction removed arbitrary: w)
  case Nil
  show ?case by simp
next
  case (Cons c cs)
  let ?call = "if stage (objs w this) \<noteq> None then removeStageReference k c w else (Inr (), w)"
  obtain r1 w1 where call: "?call = (r1, w1)" by (cases ?call)
  have r1: "r1 \<in> {Inr (), Inl TypeError, Inl OutOfFuel}"
    using call removeStageReference_errors[of k c w] by (auto split: if_splits)
  show ?case
  proof (cases r1)
    case (Inl e)
    with call r1 show ?thesis by (auto simp del: removeStageReference.simps)
  next
    case (Inr u)
    with call Cons.IH[of "upd_obj c (\<lambda>d. d\<lparr>parent := None\<rparr>) w1"] show ?thesis
      by (simp del: removeStageReference.simps)
  qed
qed

lemma removeChildren_keeps_single_parent:
  assumes inv: "single_parent w"
    and ret: "(\<exists>v. fst (removeChildren k this beginIndex endIndex w) = Inr v)
              \<or> fst (removeChildren k this beginIndex endIndex w) = Inl RangeError"
  shows "single_parent (snd (removeChildren k this beginIndex endIndex w))"
proof -
  let ?cs = "children (objs w this)"
  define b where "b = (case beginIndex of None \<Rightarrow> 0 | Some i \<Rightarrow> i)"
  define e where "e = (case endIndex of None \<Rightarrow> int (length ?cs) | Some i \<Rightarrow> i)"
  show ?thesis
  proof (cases "0 < e - b \<and> e - b \<le> e")
    case False
    then have "snd (removeChildren k this beginIndex endIndex w) = w"
      by (auto simp: removeChildren_def Let_def b_def e_def)
    with inv show ?thesis by simp
  next
    case True
    then have b0: "0 \<le> b" and n0: "0 < e - b" by auto
    define removed where "removed = take (nat (e - b)) (drop (nat b) ?cs)"
    define rest where "rest = take (nat b) ?cs @ drop (nat b + nat (e - b)) ?cs"
    let ?w1 = "upd_obj this (\<lambda>d. d\<lparr>children := snd (array_splice b (e - b) [] (children d))\<rparr>) w"
    have sp: "array_splice b (e - b) [] ?cs = (removed, rest)"
      unfolding removed_def rest_def using b0 n0 by (rule splice_range)
    obtain r1 w' where loop: "removeChildren_loop k this removed ?w1 = (r1, w')"
      by (cases "removeChildren_loop k this removed ?w1")
    have c: "(0 < e - b \<and> e - b \<le> e) = True" using True by simp
    have res: "removeChildren k this beginIndex endIndex w
          = (case r1 of Inl x \<Rightarrow> (Inl x, w') | Inr _ \<Rightarrow> (Inr removed, w'))"
      using loop sp unfolding removeChildren_def Let_def b_def[symmetric] e_def[symmetric] c if_True
      by (simp split: sum.splits)
    have ne: "r1 \<noteq> Inl RangeError"
      using removeChildren_loop_errors[of k this removed ?w1] loop by auto
    from ret res ne obtain u where r1: "r1 = Inr u" by (cases r1) auto
    from removeChildren_loop_frame[OF loop[unfolded r1]]
    have ch: "\<forall>n. children (objs w' n) = children (objs ?w1 n)"
      and pa: "\<forall>n. parent (objs w' n) = (if n \<in> set removed then None else parent (objs ?w1 n))"
      by auto
    have cs: "?cs = take (nat b) ?cs @ removed @ drop (nat b + nat (e - b)) ?cs"
      unfolding removed_def
      by (metis add.commute append_take_drop_id drop_drop)
    have dcs: "distinct ?cs" using inv by (rule single_parent_distinct)
    have drest: "distinct rest" and disj: "set removed \<inter> set rest = {}"
      and un: "set ?cs = set removed \<union> set rest"
    proof -
      have d: "distinct (take (nat b) ?cs @ removed @ drop (nat b + nat (e - b)) ?cs)"
        using dcs cs by simp
      then show "distinct rest" unfolding rest_def by auto
      from d show "set removed \<inter> set rest = {}" unfolding rest_def by auto
      have "set ?cs = set (take (nat b) ?cs @ removed @ drop (nat b + nat (e - b)) ?cs)"
        using cs by simp
      then show "set ?cs = set removed \<union> set rest" unfolding rest_def by auto
    qed
    have ch': "\<And>n. children (objs w' n) = (if n = this then rest else children (objs w n))"
      using ch sp by simp
    have pa': "\<And>n. parent (objs w' n) = (if n \<in> set removed then None else parent (objs w n))"
      using pa by simp
    have "single_parent w'"
      unfolding single_parent_def
    proof (intro conjI allI)
      fix n q
      show "parent (objs w' n) = Some q \<longleftrightarrow> n \<in> set (children (objs w' q))"
      proof (cases "n \<in> set removed")
        case True
        then have "n \<in> set ?cs" using un by simp
        then have pn: "parent (objs w n) = Some this" using inv by (rule single_parent_parent[rotated])
        have "n \<notin> set (children (objs w' q))"
        proof (cases "q = this")
          case True
          with \<open>n \<in> set removed\<close> disj show ?thesis by (auto simp: ch')
        next
          case False
          with pn single_parent_parent[OF inv, of n q] show ?thesis by (auto simp: ch')
        qed
        with True show ?thesis by (simp add: pa')
      next
        case False
        show ?thesis
        proof (cases "q = this")
          case True
          with False un have "n \<in> set (children (objs w' q)) \<longleftrightarrow> n \<in> set ?cs"
            by (auto simp: ch')
          with False True inv show ?thesis by (simp add: pa' single_parent_def)
        next
          case nq: False
          with False inv show ?thesis by (simp add: pa' ch' single_parent_def)
        qed
      qed
    next
      fix q
      show "distinct (children (objs w' q))"
        using drest inv by (simp add: ch' single_parent_def)
    qed
    with res r1 show ?thesis by simp
  qed
qed

lemma addChildAt_moves:
  assumes inv: "single_parent w" and pa: "parent (objs w child) = Some A" and ne: "A \<noteq> this"
    and idx: "0 \<le> index" "index \<le> int (length (children (objs w this)))"
    and tree: "depth_le k w child" "this \<notin> set (subtree k w child)"
    and det: "stage (objs w A) \<noteq> None \<longrightarrow> detachable k w [child]"
  shows "\<exists>w'. addChildAt k this child index w = (Inr child, w')
           \<and> length (children (objs w' A)) + 1 = length (children (objs w A))
           \<and> child \<notin> set (children (objs w' A))
           \<and> length (children (objs w' this)) = length (children (objs w this)) + 1
           \<and> parent (objs w' child) = Some this"
proof -
  let ?csA = "children (objs w A)"
  have cA: "child \<in> set ?csA" using inv pa by (rule single_parent_listed)
  have det': "\<forall>p. parent (objs w child) = Some p \<and> child \<in> set (children (objs w p))
                \<and> stage (objs w p) \<noteq> None \<longrightarrow> detachable k w [child]"
    using pa det by auto
  from addChildAt_succeeds[OF idx det' tree] pa cA
  obtain wa w' where call: "addChildAt k this child index w = (Inr child, w')"
    and sf: "stage_frame (attach this child (nat index)
                (detach A child (nat (indexOf ?csA child)) wa)) w'"
    and wa: "stage_frame w wa"
    by auto
  let ?i = "nat (indexOf ?csA child)"
  from indexOf_in[OF cA] have i: "?i < length ?csA" "?csA ! ?i = child" by auto
  have dA: "distinct ?csA" using inv by (rule single_parent_distinct)
  have csA': "children (objs w' A) = take ?i ?csA @ drop (Suc ?i) ?csA"
    using stage_frame_children[OF sf, of A] stage_frame_children[OF wa, of A] ne by simp
  have 1: "length (children (objs w' A)) + 1 = length ?csA"
    unfolding csA' using i(1) by simp
  have 2: "child \<notin> set (children (objs w' A))"
    unfolding csA' using set_remove_nth(1)[OF dA i(1)] i(2) by simp
  have csT: "children (objs w' this)
             = take (nat index) (children (objs w this)) @ [child]
               @ drop (nat index) (children (objs w this))"
    using stage_frame_children[OF sf, of this] stage_frame_children[OF wa, of this] ne by simp
  have 3: "length (children (objs w' this)) = length (children (objs w this)) + 1"
    unfolding csT using idx by simp
  have 4: "parent (objs w' child) = Some this"
    using stage_frame_fields(1)[OF sf, of child] by simp
  from call 1 2 3 4 show ?thesis by blast
qed

lemma single_parent_world_pair: "single_parent world_pair"
  by (auto simp: single_parent_def world_pair_def mk_world_def blank_def split: if_splits)

lemma world_stale_objs:
  "objs world_stale n
   = (if n = 0 then blank\<lparr>stage := Some 9, children := [Suc 0]\<rparr>
      else if n = Suc 0 then blank\<lparr>interactive := True, parent := Some 0\<rparr>
      else blank)"
  by (simp add: world_stale_def world_attached_def mk_world_def blank_def addChildAt_def
        array_splice_def upd_obj_def Let_def)

lemma single_parent_world_stale: "single_parent world_stale"
  by (auto simp: single_parent_def world_stale_objs blank_def split: if_splits)

section \<open>Insertion at a valid index\<close>

text \<open>
  C1, as stated, fails for a child that is already in this container's list:
  \<open>addChildAt\<close> first takes the child out of the list (it is its own previous parent),
  so the list is one shorter when \<open>splice\<close> puts the child back.  With container 0
  owning the single child 1, \<open>addChildAt(1, 1)\<close> is within \<open>[0, length]\<close> and returns
  the child, but the length is still 1 and \<open>getChildAt(1)\<close> raises.
\<close>

theorem addChildAt_own_child_counterexample:
  "(0::int) \<le> 1 \<and> 1 \<le> int (length (children (objs world_pair 0)))
   \<and> fst (addChildAt (Suc 0) 0 1 1 world_pair) = Inr 1
   \<and> length (children (objs (snd (addChildAt (Suc 0) 0 1 1 world_pair)) 0))
       = length (children (objs world_pair 0))
   \<and> getChildAt 0 1 (snd (addChildAt (Suc 0) 0 1 1 world_pair)) = Inl IndexError"
  by (simp add: addChildAt_def removeChild_def removeChildAt_def getChildAt_def
        array_splice_def world_pair_def mk_world_def blank_def upd_obj_def Let_def)

text \<open>
  C1, amended.  For every index in \<open>[0, length]\<close> and every child that is not already a
  child of this very container, on a well-formed tree (the objects below the child form
  a finite tree within the recursion bound, the container is not among them, and, when
  the child is taken out of an attached parent, no object occurs twice below the child
  and every interactive one has a stage), \<open>addChildAt\<close> returns the child, the child's
  parent is the container, \<open>getChildAt(index)\<close> is the child, and the length has grown
  by exactly 1.
\<close>

theorem addChildAt_inserts:
  assumes "0 \<le> index" and "index \<le> int (length (children (objs w this)))"
    and "\<not> (parent (objs w child) = Some this \<and> child \<in> set (children (objs w this)))"
    and "depth_le k w child" and "this \<notin> set (subtree k w child)"
    and "\<forall>p. parent (objs w child) = Some p \<and> child \<in> set (children (objs w p))
              \<and> stage (objs w p) \<noteq> None \<longrightarrow> detachable k w [child]"
  shows "\<exists>w'. addChildAt k this child index w = (Inr child, w')
           \<and> parent (objs w' child) = Some this
           \<and> getChildAt this index w' = Inr child
           \<and> length (children (objs w' this)) = length (children (objs w this)) + 1"
proof -
  from addChildAt_succeeds[OF assms(1,2,6,4,5)]
  obtain w1 w' where call: "addChildAt k this child index w = (Inr child, w')"
    and sf: "stage_frame (attach this child (nat index) w1) w'"
    and w1: "(w1 = w \<and> (\<forall>p. parent (objs w child) = Some p \<longrightarrow> child \<notin> set (children (objs w p))))
              \<or> (\<exists>p wa. parent (objs w child) = Some p \<and> child \<in> set (children (objs w p))
                    \<and> stage_frame w wa
                    \<and> w1 = detach p child (nat (indexOf (children (objs w p)) child)) wa)"
    by blast
  let ?cs = "children (objs w this)"
  have cs1: "children (objs w1 this) = ?cs"
    using w1
  proof
    assume "w1 = w \<and> (\<forall>p. parent (objs w child) = Some p \<longrightarrow> child \<notin> set (children (objs w p)))"
    then show ?thesis by simp
  next
    assume "\<exists>p wa. parent (objs w child) = Some p \<and> child \<in> set (children (objs w p))
                    \<and> stage_frame w wa
                    \<and> w1 = detach p child (nat (indexOf (children (objs w p)) child)) wa"
    then obtain p wa where p: "parent (objs w child) = Some p" "child \<in> set (children (objs w p))"
      and wa: "stage_frame w wa"
      and e: "w1 = detach p child (nat (indexOf (children (objs w p)) child)) wa" by blast
    from p assms(3) have "p \<noteq> this" by blast
    with e stage_frame_children[OF wa] show ?thesis by simp
  qed
  have cs': "children (objs w' this) = take (nat index) ?cs @ [child] @ drop (nat index) ?cs"
    using stage_frame_children[OF sf, of this] cs1 by simp
  have par: "parent (objs w' child) = Some this"
    using stage_frame_fields(1)[OF sf, of child] by simp
  have len: "length (children (objs w' this)) = length ?cs + 1"
    unfolding cs' using assms(1,2) by simp
  have nth: "(take (nat index) ?cs @ [child] @ drop (nat index) ?cs) ! nat index = child"
    using assms(1,2) by (simp add: nth_append)
  have "getChildAt this index w' = Inr child"
    unfolding getChildAt_def len using assms(1,2) nth cs' by simp
  with call par len show ?thesis by blast
qed

theorem addChildAt_inserts_witness:
  "\<exists>w'. addChildAt (Suc 0) 2 1 0 world_pair = (Inr 1, w')
           \<and> parent (objs w' 1) = Some 2
           \<and> getChildAt 2 0 w' = Inr 1
           \<and> length (children (objs w' 2)) = length (children (objs world_pair 2)) + 1"
  using addChildAt_inserts [of 0 world_pair 2 1 "Suc 0"]
  by (simp add: world_pair_def mk_world_def blank_def detachable_def forest_def)

section \<open>Bounds of a container without visible content\<close>

text \<open>
  C2.  When the container has no children, or none of its direct children is visible,
  \<open>getBounds\<close> returns the shared \<open>EMPTY\<close> singleton, which is not the container's own
  \<open>_bounds\<close> rectangle, and the store (the \<open>_bounds\<close> of the container included) is as
  before.
\<close>

theorem getBounds_empty:
  "children (objs w this) = [] \<or> (\<forall>c\<in>set (children (objs w this)). \<not> visible (objs w c))
   \<Longrightarrow> getBounds gb (Suc k) this w = (Inr EMPTY, w) \<and> EMPTY \<noteq> BoundsOf this"
  by (auto simp: getBounds_loop_invisible)

theorem getBounds_empty_witness:
  "(children (objs world_hidden 0) = []
      \<or> (\<forall>c\<in>set (children (objs world_hidden 0)). \<not> visible (objs world_hidden c)))
   \<and> getBounds bounds (Suc 0) 0 world_hidden = (Inr EMPTY, world_hidden) \<and> EMPTY \<noteq> BoundsOf 0"
  using getBounds_empty [of world_hidden 0 bounds 0]
  by (simp add: world_hidden_def mk_world_def blank_def)

section \<open>Removing a range of children\<close>

text \<open>
  C3, as stated, fails for a container that is attached to a stage.  \<open>removeChildren\<close>
  takes the slice out of the child list first and only then clears the stage reference
  and the parent of each removed child, and clearing the stage reference of an
  interactive child that has none raises the \<open>TypeError\<close>.  In the store built by
  \<open>container.addChildAt(child, 0)\<close> and \<open>child.removeStageReference()\<close>,
  \<open>removeChildren(0, 1)\<close> has \<open>range = 1\<close>, above 0 and at most \<open>end\<close>, yet it neither
  returns the slice nor raises the range error: it ends in the \<open>TypeError\<close>, with the
  child list emptied and the child's parent still set.
\<close>

theorem removeChildren_stale_counterexample:
  "children (objs world_stale 0) = [1]
   \<and> (0::int) < 1 - 0 \<and> (1::int) - 0 \<le> 1
   \<and> fst (removeChildren (Suc 0) 0 (Some 0) (Some 1) world_stale) = Inl TypeError
   \<and> children (objs (snd (removeChildren (Suc 0) 0 (Some 0) (Some 1) world_stale)) 0) = []
   \<and> parent (objs (snd (removeChildren (Suc 0) 0 (Some 0) (Some 1) world_stale)) 1) = Some 0"
  by (simp add: world_stale_fields removeChildren_def array_splice_def Let_def upd_obj_def)

text \<open>
  C3, amended.  With \<open>b\<close> the begin index (0 when left out), \<open>e\<close> the end index (the
  number of children when left out) and \<open>range = e - b\<close>: when \<open>range > 0\<close> and
  \<open>range \<le> e\<close> and, for a container attached to a stage, the removed subtrees are
  well-formed (finite, no object twice, a stage on every interactive object),
  \<open>removeChildren\<close> returns the slice of \<open>range\<close> children from \<open>b\<close> (as far as the list
  goes), the slice is gone from the child list and every removed child has no parent;
  when \<open>range = 0\<close> and the container is empty it returns the empty list; when neither
  test on \<open>range\<close> holds it raises the range error and the store is unchanged.  The test
  is \<open>range \<le> e\<close>: nothing compares \<open>e\<close> with the number of children.
\<close>

theorem removeChildren_cases:
  assumes "b = (case beginIndex of None \<Rightarrow> 0 | Some i \<Rightarrow> i)"
    and "e = (case endIndex of None \<Rightarrow> int (length (children (objs w this))) | Some i \<Rightarrow> i)"
  shows "(0 < e - b \<and> e - b \<le> e
          \<and> (stage (objs w this) \<noteq> None
               \<longrightarrow> detachable k w (take (nat (e - b)) (drop (nat b) (children (objs w this)))))
          \<longrightarrow> (\<exists>w'. removeChildren k this beginIndex endIndex w
                        = (Inr (take (nat (e - b)) (drop (nat b) (children (objs w this)))), w')
                  \<and> children (objs w' this)
                      = take (nat b) (children (objs w this))
                        @ drop (nat b + nat (e - b)) (children (objs w this))
                  \<and> (\<forall>c\<in>set (take (nat (e - b)) (drop (nat b) (children (objs w this)))).
                        parent (objs w' c) = None)))
       \<and> (e - b = 0 \<and> children (objs w this) = []
          \<longrightarrow> removeChildren k this beginIndex endIndex w = (Inr [], w))
       \<and> (\<not> (0 < e - b \<and> e - b \<le> e) \<and> \<not> (e - b = 0 \<and> children (objs w this) = [])
          \<longrightarrow> removeChildren k this beginIndex endIndex w = (Inl RangeError, w))"
proof (intro conjI impI)
  assume h: "0 < e - b \<and> e - b \<le> e
          \<and> (stage (objs w this) \<noteq> None
               \<longrightarrow> detachable k w (take (nat (e - b)) (drop (nat b) (children (objs w this)))))"
  then have b0: "0 \<le> b" and n0: "0 < e - b" by auto
  have eq: "removeChildren k this beginIndex endIndex w
            = removeChildren k this (Some b) (Some (b + (e - b))) w"
    unfolding assms by (simp add: removeChildren_defaults[of k this beginIndex endIndex w])
  from h have det: "stage (objs w this) \<noteq> None
               \<longrightarrow> detachable k w (take (nat (e - b)) (drop (nat b) (children (objs w this))))"
    by simp
  from removeChildren_slice[OF b0 n0 det] show
    "\<exists>w'. removeChildren k this beginIndex endIndex w
                        = (Inr (take (nat (e - b)) (drop (nat b) (children (objs w this)))), w')
                  \<and> children (objs w' this)
                      = take (nat b) (children (objs w this))
                        @ drop (nat b + nat (e - b)) (children (objs w this))
                  \<and> (\<forall>c\<in>set (take (nat (e - b)) (drop (nat b) (children (objs w this)))).
                        parent (objs w' c) = None)"
    unfolding eq .
next
  assume "e - b = 0 \<and> children (objs w this) = []"
  then show "removeChildren k this beginIndex endIndex w = (Inr [], w)"
    using assms by (simp add: removeChildren_def)
next
  assume "\<not> (0 < e - b \<and> e - b \<le> e) \<and> \<not> (e - b = 0 \<and> children (objs w this) = [])"
  then show "removeChildren k this beginIndex endIndex w = (Inl RangeError, w)"
    using assms by (auto simp: removeChildren_def Let_def)
qed

theorem removeChildren_cases_witness:
  "(\<exists>w'. removeChildren (Suc 0) 0 (Some 1) None world_three = (Inr [2, 3], w')
         \<and> children (objs w' 0) = [1]
         \<and> parent (objs w' 2) = None \<and> parent (objs w' 3) = None)
   \<and> (\<exists>w'. removeChildren (Suc 0) 0 None (Some 5) world_three = (Inr [1, 2, 3], w')
         \<and> children (objs w' 0) = [])
   \<and> removeChildren (Suc 0) 0 None None world_empty = (Inr [], world_empty)
   \<and> removeChildren (Suc 0) 0 (Some 2) (Some 1) world_three = (Inl RangeError, world_three)
   \<and> stage (objs world_live 0) \<noteq> None \<and> detachable (Suc 0) world_live [1]
   \<and> (\<exists>w'. removeChildren (Suc 0) 0 None None world_live = (Inr [1], w')
         \<and> children (objs w' 0) = [] \<and> parent (objs w' 1) = None)"
  using removeChildren_cases [where b = 0 and beginIndex = None and e = 1
          and endIndex = None and w = world_live and this = 0 and k = "Suc 0"]
        removeChildren_cases [where b = 1 and beginIndex = "Some 1" and e = 3
          and endIndex = None and w = world_three and this = 0 and k = "Suc 0"]
        removeChildren_cases [where b = 0 and beginIndex = None and e = 5
          and endIndex = "Some 5" and w = world_three and this = 0 and k = "Suc 0"]
        removeChildren_cases [where b = 0 and beginIndex = None and e = 0
          and endIndex = None and w = world_empty and this = 0 and k = "Suc 0"]
        removeChildren_cases [where b = 2 and beginIndex = "Some 2" and e = 1
          and endIndex = "Some 1" and w = world_three and this = 0 and k = "Suc 0"]
  by (auto simp: world_three_0 world_empty_0 world_live_fields detachable_def forest_def)

section \<open>Insertion out of range\<close>

text \<open>
  C4.  For an index below 0 or above the number of children, \<open>addChildAt\<close> raises the
  out-of-bounds error and the whole store is as before: the container's child list, the
  child's parent reference and the child list of the child's previous parent are all
  unchanged, and nothing was detached.
\<close>

theorem addChildAt_out_of_bounds:
  "index < 0 \<or> index > int (length (children (objs w this)))
   \<Longrightarrow> addChildAt k this child index w = (Inl OutOfBounds, w)"
  by (auto simp: addChildAt_def)

theorem addChildAt_out_of_bounds_witness:
  "((- 1 :: int) < 0 \<or> - 1 > int (length (children (objs world_empty 0))))
   \<and> addChildAt 1 0 1 (- 1) world_empty = (Inl OutOfBounds, world_empty)"
  using addChildAt_out_of_bounds [of "- 1" world_empty 0 1 1] by simp

section \<open>Preservation of the single-parent invariant\<close>

text \<open>
  C5, as stated, fails for \<open>removeChildren\<close> on an attached container one of whose
  children has lost its stage reference.  The slice is taken out of the child list
  before the stage references are cleared, so when the clearing raises the \<open>TypeError\<close>
  the child still names the container as its parent while the container no longer lists
  it.  In the store built by \<open>container.addChildAt(child, 0)\<close> and
  \<open>child.removeStageReference()\<close> on an interactive child, the invariant holds before
  \<open>removeChildren()\<close> and not after.
\<close>

theorem removeChildren_breaks_single_parent_counterexample:
  "single_parent world_stale
   \<and> fst (removeChildren (Suc 0) 0 None None world_stale) = Inl TypeError
   \<and> parent (objs (snd (removeChildren (Suc 0) 0 None None world_stale)) 1) = Some 0
   \<and> children (objs (snd (removeChildren (Suc 0) 0 None None world_stale)) 0) = []
   \<and> \<not> single_parent (snd (removeChildren (Suc 0) 0 None None world_stale))"
proof -
  have p: "parent (objs (snd (removeChildren (Suc 0) 0 None None world_stale)) (Suc 0)) = Some 0"
    and c: "children (objs (snd (removeChildren (Suc 0) 0 None None world_stale)) 0) = []"
    and e: "fst (removeChildren (Suc 0) 0 None None world_stale) = Inl TypeError"
    by (simp_all add: world_stale_fields removeChildren_def array_splice_def Let_def upd_obj_def)
  have "\<not> single_parent (snd (removeChildren (Suc 0) 0 None None world_stale))"
  proof
    assume "single_parent (snd (removeChildren (Suc 0) 0 None None world_stale))"
    then have "Suc 0 \<in> set (children (objs (snd (removeChildren (Suc 0) 0 None None world_stale)) 0))"
      using p unfolding single_parent_def by blast
    with c show False by simp
  qed
  with single_parent_world_stale p c e show ?thesis by simp
qed

text \<open>
  C5, amended.  The single-parent invariant is kept by \<open>addChildAt\<close>, \<open>addChild\<close>,
  \<open>removeChildAt\<close>, \<open>removeChild\<close>, \<open>swapChildren\<close> and \<open>setChildIndex\<close> however they
  end, and by \<open>removeChildren\<close> when it returns or raises its range error.  In
  particular, on a well-formed tree, \<open>addChildAt\<close> on a container of a child owned by
  another container \<open>A\<close> returns the child, \<open>A\<close> has one child less and no longer lists
  the child, the container has one child more, and the child's parent is the container.
\<close>

theorem single_parent_preserved:
  assumes "single_parent w"
  shows "single_parent (snd (addChildAt k this child index w))
       \<and> single_parent (snd (addChild k this child w))
       \<and> single_parent (snd (removeChildAt k this index w))
       \<and> single_parent (snd (removeChild k this child w))
       \<and> single_parent (snd (swapChildren this child child2 w))
       \<and> single_parent (snd (setChildIndex this child index w))
       \<and> ((\<exists>v. fst (removeChildren k this beginIndex endIndex w) = Inr v)
              \<or> fst (removeChildren k this beginIndex endIndex w) = Inl RangeError
           \<longrightarrow> single_parent (snd (removeChildren k this beginIndex endIndex w)))
       \<and> (parent (objs w child) = Some A \<and> A \<noteq> this
            \<and> 0 \<le> index \<and> index \<le> int (length (children (objs w this)))
            \<and> depth_le k w child \<and> this \<notin> set (subtree k w child)
            \<and> (stage (objs w A) \<noteq> None \<longrightarrow> detachable k w [child])
           \<longrightarrow> (\<exists>w'. addChildAt k this child index w = (Inr child, w')
                  \<and> length (children (objs w' A)) + 1 = length (children (objs w A))
                  \<and> child \<notin> set (children (objs w' A))
                  \<and> length (children (objs w' this)) = length (children (objs w this)) + 1
                  \<and> parent (objs w' child) = Some this))"
proof (intro conjI impI)
  show "single_parent (snd (addChildAt k this child index w))"
    using assms by (rule addChildAt_keeps_single_parent)
  show "single_parent (snd (addChild k this child w))"
    unfolding addChild_def using assms by (rule addChildAt_keeps_single_parent)
  show "single_parent (snd (removeChildAt k this index w))"
    using assms by (rule removeChildAt_keeps_single_parent)
  show "single_parent (snd (removeChild k this child w))"
    using assms by (rule removeChild_keeps_single_parent)
  show "single_parent (snd (swapChildren this child child2 w))"
    using assms by (rule swapChildren_keeps_single_parent)
  show "single_parent (snd (setChildIndex this child index w))"
    using assms by (rule setChildIndex_keeps_single_parent)
next
  assume "(\<exists>v. fst (removeChildren k this beginIndex endIndex w) = Inr v)
              \<or> fst (removeChildren k this beginIndex endIndex w) = Inl RangeError"
  with assms show "single_parent (snd (removeChildren k this beginIndex endIndex w))"
    by (rule removeChildren_keeps_single_parent)
next
  assume h: "parent (objs w child) = Some A \<and> A \<noteq> this
            \<and> 0 \<le> index \<and> index \<le> int (length (children (objs w this)))
            \<and> depth_le k w child \<and> this \<notin> set (subtree k w child)
            \<and> (stage (objs w A) \<noteq> None \<longrightarrow> detachable k w [child])"
  show "\<exists>w'. addChildAt k this child index w = (Inr child, w')
                  \<and> length (children (objs w' A)) + 1 = length (children (objs w A))
                  \<and> child \<notin> set (children (objs w' A))
                  \<and> length (children (objs w' this)) = length (children (objs w this)) + 1
                  \<and> parent (objs w' child) = Some this"
    by (rule addChildAt_moves[OF assms]) (use h in simp_all)
qed

theorem single_parent_preserved_witness:
  "single_parent world_pair
   \<and> single_parent (snd (addChildAt (Suc 0) 2 1 0 world_pair))
   \<and> single_parent (snd (removeChildren (Suc 0) 0 None None world_pair))
   \<and> (\<exists>w'. addChildAt (Suc 0) 2 1 0 world_pair = (Inr 1, w')
          \<and> length (children (objs w' 0)) + 1 = length (children (objs world_pair 0))
          \<and> 1 \<notin> set (children (objs w' 0))
          \<and> length (children (objs w' 2)) = length (children (objs world_pair 2)) + 1
          \<and> parent (objs w' 1) = Some 2)"
proof -
  have f: "parent (objs world_pair (Suc 0)) = Some 0" "children (objs world_pair (Suc 0)) = []"
    "children (objs world_pair 2) = []" "stage (objs world_pair 0) = None"
    "children (objs world_pair 0) = [Suc 0]"
    by (simp_all add: world_pair_def mk_world_def blank_def)
  have r: "fst (removeChildren (Suc 0) 0 None None world_pair) = Inr [Suc 0]"
    by (simp add: removeChildren_def f array_splice_def Let_def)
  show ?thesis
    using single_parent_preserved [OF single_parent_world_pair,
            where k = "Suc 0" and this = 2 and child = 1 and index = 0 and A = 0]
          single_parent_preserved [OF single_parent_world_pair,
            where k = "Suc 0" and this = 0 and beginIndex = None and endIndex = None]
          single_parent_world_pair r
    by (simp add: f)
qed

section \<open>Bounds of a container with visible children\<close>



section \<open>Swapping children\<close>

text \<open>
  C7.  \<open>swapChildren(a, a)\<close> leaves the store as it is.  In a child list that holds every
  child once (the container's model of its children; no operation inserts a child
  twice), swapping two distinct direct children twice gives back the original order,
  indeed the original store.  If the operands are distinct and one of them is not a
  direct child, the membership error is raised and the store is unchanged.
\<close>

theorem swapChildren_involution:
  "swapChildren this a a w = (Inr (), w)
   \<and> (distinct (children (objs w this)) \<and> a \<noteq> b
        \<and> a \<in> set (children (objs w this)) \<and> b \<in> set (children (objs w this))
      \<longrightarrow> (\<exists>w1. swapChildren this a b w = (Inr (), w1)
                 \<and> swapChildren this a b w1 = (Inr (), w)))
   \<and> (a \<noteq> b \<and> (a \<notin> set (children (objs w this)) \<or> b \<notin> set (children (objs w this)))
      \<longrightarrow> swapChildren this a b w = (Inl MembershipError, w))"
proof (intro conjI impI)
  show "swapChildren this a a w = (Inr (), w)" by (simp add: swapChildren_def)
next
  assume h: "distinct (children (objs w this)) \<and> a \<noteq> b
        \<and> a \<in> set (children (objs w this)) \<and> b \<in> set (children (objs w this))"
  let ?cs = "children (objs w this)"
  let ?cs1 = "?cs[nat (indexOf ?cs a) := b, nat (indexOf ?cs b) := a]"
  let ?w1 = "upd_obj this
              (\<lambda>d. d\<lparr>children := (children d)[nat (indexOf (children d) a) := b,
                                              nat (indexOf (children d) b) := a]\<rparr>) w"
  from h have 1: "swapChildren this a b w = (Inr (), ?w1)" by (simp add: swapChildren_in)
  have c1: "children (objs ?w1 this) = ?cs1" by simp
  from h swap_list_twice[of ?cs a b]
  have a1: "a \<in> set ?cs1" and b1: "b \<in> set ?cs1"
    and restore: "?cs1[nat (indexOf ?cs1 a) := b, nat (indexOf ?cs1 b) := a] = ?cs" by auto
  have "swapChildren this a b ?w1
        = (Inr (), upd_obj this
              (\<lambda>d. d\<lparr>children := (children d)[nat (indexOf (children d) a) := b,
                                              nat (indexOf (children d) b) := a]\<rparr>) ?w1)"
  proof (rule swapChildren_in)
    show "a \<noteq> b" using h by simp
    show "a \<in> set (children (objs ?w1 this))" unfolding c1 by (rule a1)
    show "b \<in> set (children (objs ?w1 this))" unfolding c1 by (rule b1)
  qed
  also have "upd_obj this
              (\<lambda>d. d\<lparr>children := (children d)[nat (indexOf (children d) a) := b,
                                              nat (indexOf (children d) b) := a]\<rparr>) ?w1 = w"
    using restore by (simp add: upd_obj_def)
  finally have 2: "swapChildren this a b ?w1 = (Inr (), w)" .
  from 1 2 show "\<exists>w1. swapChildren this a b w = (Inr (), w1)
                 \<and> swapChildren this a b w1 = (Inr (), w)" by blast
next
  assume h: "a \<noteq> b \<and> (a \<notin> set (children (objs w this)) \<or> b \<notin> set (children (objs w this)))"
  show "swapChildren this a b w = (Inl MembershipError, w)"
  proof (cases "a \<in> set (children (objs w this))")
    case False
    with h show ?thesis by (simp add: swapChildren_def getChildIndex_notin)
  next
    case True
    with h have "b \<notin> set (children (objs w this))" by simp
    with h True show ?thesis
      by (simp add: swapChildren_def getChildIndex_notin getChildIndex_in)
  qed
qed

theorem swapChildren_involution_witness:
  "swapChildren 0 1 1 world_three = (Inr (), world_three)
   \<and> (\<exists>w1. swapChildren 0 1 3 world_three = (Inr (), w1)
           \<and> swapChildren 0 1 3 w1 = (Inr (), world_three))
   \<and> swapChildren 0 1 4 world_three = (Inl MembershipError, world_three)"
  using swapChildren_involution [of 0 1 world_three 3]
        swapChildren_involution [of 0 1 world_three 4]
  by (simp add: world_three_def mk_world_def blank_def)

section \<open>Early return of the two render backends\<close>

text \<open>
  Each backend returns at once, with no call on the render session, no recursion and
  the store unchanged, under the condition it tests: \<open>_renderWebGL\<close> when the container
  is not visible or its alpha is at or below zero, \<open>_renderCanvas\<close> when the container
  is not visible or its alpha equals zero.
\<close>

lemma render_early_return:
  "(\<not> visible (objs w this) \<or> num_le (alpha (objs w this)) (Num 0)
      \<longrightarrow> renderWebGL (Suc k) this w = (Inr (), w))
   \<and> (\<not> visible (objs w this) \<or> num_eq (alpha (objs w this)) (Num 0)
      \<longrightarrow> renderCanvas (Suc k) this w = (Inr (), w))"
  by simp

lemma render_early_return_transparent:
  "num_le (alpha (objs world_transparent 0)) (Num 0)
   \<and> renderWebGL (Suc 0) 0 world_transparent = (Inr (), world_transparent)
   \<and> num_eq (alpha (objs world_transparent 0)) (Num 0)
   \<and> renderCanvas (Suc 0) 0 world_transparent = (Inr (), world_transparent)"
  using render_early_return [of world_transparent 0 0]
  by (simp add: world_transparent_def mk_world_def blank_def num_le_def)

text \<open>
  C8.  Both backends are to return at once, with no call on the render session and the
  store unchanged, when the container is not visible or is fully transparent, the alpha
  at or below zero, and both are to apply the same test.  \<open>_renderWebGL\<close> tests
  \<open>alpha <= 0\<close>, but \<open>_renderCanvas\<close> tests \<open>alpha === 0\<close>: for a visible container with
  an alpha below zero that is cached as a bitmap, \<open>_renderWebGL\<close> returns at once and
  leaves the store as it is, whereas \<open>_renderCanvas\<close> goes on and draws the cached
  sprite through the render session.  The container with alpha \<open>-1\<close> is one such.
\<close>

theorem renderCanvas_negative_alpha:
  assumes "visible (objs w this)" and "num_lt (alpha (objs w this)) (Num 0)"
    and "cacheAsBitmap (objs w this)"
  shows "renderWebGL (Suc k) this w = (Inr (), w)
       \<and> renderCanvas (Suc k) this w = (Inr (), emit [RenderCachedSprite this] w)
       \<and> calls (snd (renderCanvas (Suc k) this w)) = calls w @ [RenderCachedSprite this]"
proof -
  from assms(2) have "num_le (alpha (objs w this)) (Num 0)" by (simp add: num_le_def)
  moreover from assms(2) have "\<not> num_eq (alpha (objs w this)) (Num 0)"
    by (cases "alpha (objs w this)") auto
  ultimately show ?thesis using assms(1,3) by (simp add: emit_def)
qed

theorem renderCanvas_negative_alpha_witness:
  "visible (objs world_negative_alpha 0)
   \<and> num_lt (alpha (objs world_negative_alpha 0)) (Num 0)
   \<and> cacheAsBitmap (objs world_negative_alpha 0)
   \<and> renderWebGL (Suc 0) 0 world_negative_alpha = (Inr (), world_negative_alpha)
   \<and> calls (snd (renderCanvas (Suc 0) 0 world_negative_alpha)) = [RenderCachedSprite 0]
   \<and> renderCanvas (Suc 0) 0 world_negative_alpha \<noteq> (Inr (), world_negative_alpha)"
  using renderCanvas_negative_alpha [of world_negative_alpha 0 0]
  by (simp add: world_negative_alpha_def mk_world_def blank_def emit_def)

section \<open>The width and height setters\<close>

text \<open>
  C9.  On a finite tree whose objects below the container have their parents, the local
  bounds are obtained, and assigning to \<open>width\<close> sets \<open>scale.x\<close> to 1 if the local bounds
  have width 0, and to the value divided by that width otherwise; the division is never
  by zero.  Likewise for \<open>height\<close> and \<open>scale.y\<close>.
\<close>

theorem set_width_height_scale:
  assumes "depth_le (Suc k) w this"
    and "\<forall>n\<in>set (forest k w (children (objs w this))). parent (objs w n) \<noteq> None"
  shows "\<exists>r w1. getLocalBounds gb k this w = (Inr r, w1)
       \<and> fst (set_width gb k this v w) = Inr ()
       \<and> scale_x (objs (snd (set_width gb k this v w)) this)
           = (if rect_width (deref w1 r) = Num 0 then Num 1
              else num_div v (rect_width (deref w1 r)))
       \<and> fst (set_height gb k this v w) = Inr ()
       \<and> scale_y (objs (snd (set_height gb k this v w)) this)
           = (if rect_height (deref w1 r) = Num 0 then Num 1
              else num_div v (rect_height (deref w1 r)))"
proof -
  from getLocalBounds_returns[OF assms, of gb] obtain r w1 where
    glb: "getLocalBounds gb k this w = (Inr r, w1)" by blast
  then have "fst (set_width gb k this v w) = Inr ()
       \<and> scale_x (objs (snd (set_width gb k this v w)) this)
           = (if rect_width (deref w1 r) = Num 0 then Num 1
              else num_div v (rect_width (deref w1 r)))
       \<and> fst (set_height gb k this v w) = Inr ()
       \<and> scale_y (objs (snd (set_height gb k this v w)) this)
           = (if rect_height (deref w1 r) = Num 0 then Num 1
              else num_div v (rect_height (deref w1 r)))"
    by (simp add: set_width_def set_height_def Let_def num_eq_zero)
  with glb show ?thesis by blast
qed

theorem set_width_height_scale_witness:
  "scale_x (objs (snd (set_width bounds (Suc 0) 0 (Num 20) world_sprite)) 0) = Num 2
   \<and> scale_y (objs (snd (set_height bounds (Suc 0) 0 (Num 20) world_sprite)) 0) = Num 4
   \<and> scale_x (objs (snd (set_width bounds (Suc 0) 0 (Num 20) world_empty)) 0) = Num 1
   \<and> scale_y (objs (snd (set_height bounds (Suc 0) 0 (Num 20) world_empty)) 0) = Num 1"
proof -
  from set_width_height_scale [OF world_sprite_tree, of bounds "Num 20"]
  obtain r w1 where 1: "getLocalBounds bounds (Suc 0) 0 world_sprite = (Inr r, w1)"
    and 2: "scale_x (objs (snd (set_width bounds (Suc 0) 0 (Num 20) world_sprite)) 0)
           = (if rect_width (deref w1 r) = Num 0 then Num 1
              else num_div (Num 20) (rect_width (deref w1 r)))"
    and 3: "scale_y (objs (snd (set_height bounds (Suc 0) 0 (Num 20) world_sprite)) 0)
           = (if rect_height (deref w1 r) = Num 0 then Num 1
              else num_div (Num 20) (rect_height (deref w1 r)))"
    by blast
  from 1 getLocalBounds_world_sprite have r: "r = BoundsOf 0"
    and d: "deref w1 (BoundsOf 0)
       = \<lparr>rect_x = Num 0, rect_y = Num 0, rect_width = Num 10, rect_height = Num 5\<rparr>"
    by auto
  from set_width_height_scale [OF world_empty_tree, of bounds "Num 20"]
  obtain r' w1' where 4: "getLocalBounds bounds (Suc 0) 0 world_empty = (Inr r', w1')"
    and 5: "scale_x (objs (snd (set_width bounds (Suc 0) 0 (Num 20) world_empty)) 0)
           = (if rect_width (deref w1' r') = Num 0 then Num 1
              else num_div (Num 20) (rect_width (deref w1' r')))"
    and 6: "scale_y (objs (snd (set_height bounds (Suc 0) 0 (Num 20) world_empty)) 0)
           = (if rect_height (deref w1' r') = Num 0 then Num 1
              else num_div (Num 20) (rect_height (deref w1' r')))"
    by blast
  from 4 getLocalBounds_world_empty have r': "r' = EMPTY" by auto
  from 2 3 5 6 show ?thesis
    by (simp add: r d r' deref_EMPTY Rectangle_EMPTY_def)
qed

section \<open>Clearing the stage reference on removal\<close>

text \<open>
  C10, as stated, fails: that the callers test the container's stage reference does not
  keep the removal operations from the failure, because the test says nothing about the
  child's own stage reference.  After \<open>container.addChildAt(child, 0)\<close> on an attached
  container and \<open>child.removeStageReference()\<close> on the interactive child, the container
  still has its stage, the child has none, and \<open>removeChildAt\<close>, \<open>removeChild\<close> and
  \<open>removeChildren\<close> all end in the \<open>TypeError\<close>.
\<close>

theorem removal_null_stage_counterexample:
  "children (objs world_stale 0) = [1] \<and> stage (objs world_stale 0) = Some 9
   \<and> interactive (objs world_stale 1) \<and> stage (objs world_stale 1) = None
   \<and> fst (removeChildAt (Suc 0) 0 0 world_stale) = Inl TypeError
   \<and> fst (removeChild (Suc 0) 0 1 world_stale) = Inl TypeError
   \<and> fst (removeChildren (Suc 0) 0 None None world_stale) = Inl TypeError"
  by (simp add: world_stale_fields removeChildAt_def removeChild_def removeChildren_def
        getChildAt_def array_splice_def Let_def)

text \<open>
  C10, amended.  \<open>removeStageReference\<close> on an interactive object without a stage fails
  with the \<open>TypeError\<close> once the recursion into its children has returned.
  \<open>removeChildAt\<close>, \<open>removeChild\<close> and \<open>removeChildren\<close> call it only when the container
  has a stage: on a detached container they never meet the failure, and on an attached
  one they do not meet it when the removed subtrees are well-formed (finite, no object
  twice, a stage on every interactive object).
\<close>

theorem removal_stage_failure:
  "(interactive (objs w x) \<and> stage (objs w x) = None
      \<and> fst (forEach (removeStageReference k) (children (objs w x)) w) = Inr ()
     \<longrightarrow> fst (removeStageReference (Suc k) x w) = Inl TypeError)
   \<and> (0 \<le> i \<and> i < int (length (children (objs w this)))
      \<and> (stage (objs w this) \<noteq> None \<longrightarrow> detachable k w [children (objs w this) ! nat i])
     \<longrightarrow> fst (removeChildAt k this i w) = Inr (children (objs w this) ! nat i))
   \<and> ((child \<in> set (children (objs w this)) \<longrightarrow> stage (objs w this) \<noteq> None
        \<longrightarrow> detachable k w [child])
     \<longrightarrow> (\<exists>v. fst (removeChild k this child w) = Inr v))
   \<and> ((stage (objs w this) \<noteq> None
        \<longrightarrow> detachable k w (take (nat (e - b)) (drop (nat b) (children (objs w this)))))
     \<longrightarrow> fst (removeChildren k this (Some b) (Some e) w) \<noteq> Inl TypeError)"
proof (intro conjI impI)
  assume "interactive (objs w x) \<and> stage (objs w x) = None
      \<and> fst (forEach (removeStageReference k) (children (objs w x)) w) = Inr ()"
  then show "fst (removeStageReference (Suc k) x w) = Inl TypeError"
    using removeStageReference_null_stage by blast
next
  assume "0 \<le> i \<and> i < int (length (children (objs w this)))
      \<and> (stage (objs w this) \<noteq> None \<longrightarrow> detachable k w [children (objs w this) ! nat i])"
  then show "fst (removeChildAt k this i w) = Inr (children (objs w this) ! nat i)"
    using removeChildAt_succeeds by blast
next
  assume "child \<in> set (children (objs w this)) \<longrightarrow> stage (objs w this) \<noteq> None
        \<longrightarrow> detachable k w [child]"
  then show "\<exists>v. fst (removeChild k this child w) = Inr v"
    by (rule removeChild_succeeds)
next
  assume "stage (objs w this) \<noteq> None
        \<longrightarrow> detachable k w (take (nat (e - b)) (drop (nat b) (children (objs w this))))"
  then show "fst (removeChildren k this (Some b) (Some e) w) \<noteq> Inl TypeError"
    by (rule removeChildren_no_TypeError)
qed

theorem removal_stage_failure_witness:
  "fst (removeStageReference (Suc 0) 1 world_attached) = Inl TypeError
   \<and> fst (removeChildAt (Suc 0) 0 0 world_live) = Inr 1
   \<and> (\<exists>v. fst (removeChild (Suc 0) 0 1 world_live) = Inr v)
   \<and> fst (removeChildren (Suc 0) 0 (Some 0) (Some 1) world_live) \<noteq> Inl TypeError"
  using removal_stage_failure [where w = world_attached and x = 1 and k = 0
          and this = 0 and i = 0 and child = 1 and b = 0 and e = 0]
        removal_stage_failure [where w = world_live and x = 1 and k = "Suc 0"
          and this = 0 and i = 0 and child = 1 and b = 0 and e = 1]
  by (simp add: world_attached_fields world_live_fields detachable_def forest_def)

end
